theory Spec2Isabelle
  imports Complex_Main "HOL-Library.Sublist" "HOL-Library.AList"
begin

chapter \<open>The model of the extension\<close>

section \<open>JavaScript values held by the translation cache\<close>

text \<open>
  The cache \<^verbatim>\<open>jsonCache\<close> holds what \<^verbatim>\<open>JSON.parse\<close> returned for each
  translation file, or the empty object after a failed load. A value is therefore a JSON
  value: \<^verbatim>\<open>null\<close>, a boolean, a number, a string, an array or an object. An
  object is the list of its own properties in the order \<^verbatim>\<open>Object.keys\<close>
  enumerates them; a JavaScript object holds each property name once.
  \<^verbatim>\<open>JUndefined\<close> is the value \<^verbatim>\<open>undefined\<close>, which the lookup produces.
  \<^verbatim>\<open>JHost n\<close> stands for a value of the runtime itself, reached through a
  prototype under the property name \<open>n\<close> (a built-in function such as
  \<^verbatim>\<open>Object.prototype.toString\<close>). Of a number only its being a number is ever
  inspected. A \<open>char\<close> is one code unit of the string.
\<close>

datatype jsval =
    JUndefined
  | JNull
  | JBool bool
  | JNum real
  | JStr string
  | JArr "jsval list"
  | JObj "(string \<times> jsval) list"
  | JHost string

text \<open>
  A property that is not an own property of a value is looked up along its prototype
  chain. Which names the built-in prototypes carry belongs to the runtime and not to the
  extension, so the inherited lookup is a parameter of the model: \<open>env v name\<close> is
  the inherited member of \<open>v\<close> called \<open>name\<close>, and \<open>JUndefined\<close> when there is none.
\<close>

type_synonym proto_env = "jsval \<Rightarrow> string \<Rightarrow> jsval"

text \<open>
  The members that every object inherits from \<^verbatim>\<open>Object.prototype\<close> in ECMAScript.
  The environment built from them is used only at concrete inputs.
\<close>

definition object_prototype_names :: "string list" where
  "object_prototype_names =
     [''constructor'', ''hasOwnProperty'', ''isPrototypeOf'', ''propertyIsEnumerable'',
      ''toLocaleString'', ''toString'', ''valueOf'', ''__proto__'',
      ''__defineGetter__'', ''__defineSetter__'', ''__lookupGetter__'', ''__lookupSetter__'']"

definition object_prototype_env :: proto_env where
  "object_prototype_env v name =
     (if name \<in> set object_prototype_names then JHost name else JUndefined)"

subsection \<open>Property names of array elements and string positions\<close>

text \<open>
  The element \<open>i\<close> of an array, and the code unit \<open>i\<close> of a string, is the own
  property whose name is the decimal numeral of \<open>i\<close> (\<^verbatim>\<open>ToString(i)\<close>).
\<close>

definition digit_char :: "nat \<Rightarrow> char" where
  "digit_char d = ''0123456789'' ! d"

function show_nat :: "nat \<Rightarrow> string" where
  "show_nat n = (if n < 10 then [digit_char n] else show_nat (n div 10) @ [digit_char (n mod 10)])"
  by pat_completeness auto
termination
  by (relation "measure id") auto

declare show_nat.simps [simp del]

definition index_names :: "nat \<Rightarrow> string list" where
  "index_names n = map show_nat [0..<n]"

text \<open>\<^verbatim>\<open>Object.keys(node)\<close> for a node that passed
  \<^verbatim>\<open>typeof node === "object" && node !== null\<close>: the own enumerable property
  names. The members of the built-in objects are not enumerable.\<close>

fun object_keys :: "jsval \<Rightarrow> string list" where
  "object_keys (JObj kvs) = map fst kvs"
| "object_keys (JArr xs) = index_names (length xs)"
| "object_keys v = []"

section \<open>Nested lookup\<close>

text \<open>
  \<^verbatim>\<open>acc?.[cur]\<close>: \<^verbatim>\<open>undefined\<close> when \<open>acc\<close> is \<^verbatim>\<open>undefined\<close> or
  \<^verbatim>\<open>null\<close>; otherwise the property \<open>cur\<close> of \<open>acc\<close>, an own property first and
  an inherited one after that. Arrays and strings own their positions and
  \<^verbatim>\<open>length\<close>.
\<close>

fun get_prop :: "proto_env \<Rightarrow> jsval \<Rightarrow> string \<Rightarrow> jsval" where
  "get_prop env JUndefined cur = JUndefined"
| "get_prop env JNull cur = JUndefined"
| "get_prop env (JObj kvs) cur =
     (case map_of kvs cur of Some v \<Rightarrow> v | None \<Rightarrow> env (JObj kvs) cur)"
| "get_prop env (JArr xs) cur =
     (case map_of (zip (index_names (length xs)) xs) cur of
        Some v \<Rightarrow> v
      | None \<Rightarrow> if cur = ''length'' then JNum (real (length xs)) else env (JArr xs) cur)"
| "get_prop env (JStr s) cur =
     (case map_of (zip (index_names (length s)) s) cur of
        Some c \<Rightarrow> JStr [c]
      | None \<Rightarrow> if cur = ''length'' then JNum (real (length s)) else env (JStr s) cur)"
| "get_prop env v cur = env v cur"

text \<open>
  \<^verbatim>\<open>key.split(".")\<close>: the pieces of the key between the dots. The result is never
  empty: the empty key gives the one piece \<^verbatim>\<open>""\<close>.
\<close>

fun split_dot :: "string \<Rightarrow> string list" where
  "split_dot [] = [[]]"
| "split_dot (c # cs) =
     (if c = CHR ''.'' then [] # split_dot cs
      else (case split_dot cs of [] \<Rightarrow> [[c]] | w # ws \<Rightarrow> (c # w) # ws))"

text \<open>\<^verbatim>\<open>key.split(".").reduce((acc, cur) => acc?.[cur], obj)\<close>\<close>

definition getValueByKey :: "proto_env \<Rightarrow> jsval \<Rightarrow> string \<Rightarrow> jsval" where
  "getValueByKey env obj key = foldl (get_prop env) obj (split_dot key)"

text \<open>\<^verbatim>\<open>segs.join(".")\<close>\<close>

fun join_dot :: "string list \<Rightarrow> string" where
  "join_dot [] = []"
| "join_dot [s] = s"
| "join_dot (s # t # ts) = s @ CHR ''.'' # join_dot (t # ts)"

subsection \<open>The lookup as the specification words it\<close>





section \<open>Configuration\<close>

record ConfigInterface =
  matchStrings :: "string list"
  workInFiles :: "string list"
  paths :: "string list"

definition defaultMatchStrings :: "string list" where
  "defaultMatchStrings = [''this._translate'', ''_translate'', ''translate'', ''trans'']"

definition defaultLanguages :: "string list" where
  "defaultLanguages = [''javascript'', ''typescript'', ''html'']"

definition defaultConfig :: ConfigInterface where
  "defaultConfig =
     \<lparr>matchStrings = defaultMatchStrings, workInFiles = defaultLanguages, paths = []\<rparr>"

section \<open>The text around the cursor\<close>

text \<open>\<^verbatim>\<open>lineText.charAt(i)\<close>: the one-character string at \<open>i\<close>, the empty string
  outside the line.\<close>

definition charAt :: "string \<Rightarrow> nat \<Rightarrow> string" where
  "charAt s i = (if i < length s then [s ! i] else [])"

definition allowed_chars :: "char list" where
  "allowed_chars =
     ''abcdefghijklmnopqrstuvwxyz'' @ ''ABCDEFGHIJKLMNOPQRSTUVWXYZ'' @ ''0123456789'' @ ''_.''"

text \<open>\<^verbatim>\<open>/[a-zA-Z0-9_.]/.test(ch)\<close>: some character of \<open>ch\<close> is in the class.\<close>

definition isAllowed :: "string \<Rightarrow> bool" where
  "isAllowed ch = list_ex (\<lambda>c. c \<in> set allowed_chars) ch"

text \<open>\<^verbatim>\<open>while (start > 0 && isAllowed(lineText.charAt(start - 1))) start--\<close>\<close>

fun scan_left :: "string \<Rightarrow> nat \<Rightarrow> nat" where
  "scan_left lineText 0 = 0"
| "scan_left lineText (Suc n) =
     (if isAllowed (charAt lineText n) then scan_left lineText n else Suc n)"

text \<open>\<^verbatim>\<open>while (end < lineText.length && isAllowed(lineText.charAt(end))) end++\<close>\<close>

function scan_right :: "string \<Rightarrow> nat \<Rightarrow> nat" where
  "scan_right lineText e =
     (if e < length lineText \<and> isAllowed (charAt lineText e)
      then scan_right lineText (Suc e) else e)"
  by pat_completeness auto
termination
  by (relation "measure (\<lambda>(lineText, e). length lineText - e)") auto

declare scan_right.simps [simp del]

text \<open>\<^verbatim>\<open>s.substring(a, b)\<close>: both ends are clamped to the string, and swapped when
  they come in the wrong order.\<close>

definition substring :: "string \<Rightarrow> nat \<Rightarrow> nat \<Rightarrow> string" where
  "substring s a b =
     (let a' = min a (length s); b' = min b (length s)
      in take (max a' b' - min a' b') (drop (min a' b') s))"

text \<open>
  \<^verbatim>\<open>getFullTextAtPosition(document, position)\<close>, on the text of the line and
  \<^verbatim>\<open>position.character\<close>. \<open>None\<close> is \<^verbatim>\<open>null\<close>.
\<close>

definition getFullTextAtPosition :: "string \<Rightarrow> nat \<Rightarrow> string option" where
  "getFullTextAtPosition lineText character =
     (if lineText = [] then None
      else
        let start0 = (if character > 0 then character - 1 else character);
            start = scan_left lineText start0;
            e = scan_right lineText character
        in if start = e then None else Some (substring lineText start e))"

section \<open>Prefix recognition\<close>

text \<open>
  \<^verbatim>\<open>buildRegexFromVariables(vars)\<close> escapes every character of each variable name
  that is special in a pattern and builds
  \<^verbatim>\<open>(?:v1|v2|...)(\.[a-zA-Z0-9_]+)*\<close>. An escaped name matches exactly its own
  text, so the pattern is determined by its alternatives; with no name at all the group
  is \<^verbatim>\<open>(?:)\<close>, which matches the empty text.
\<close>

definition buildRegexFromVariables :: "string list \<Rightarrow> string list" where
  "buildRegexFromVariables vars = (if vars = [] then [[]] else vars)"

text \<open>
  \<^verbatim>\<open>regex.test(text)\<close>. The pattern is not anchored and its trailing group may
  match nothing: the test succeeds when some alternative occurs somewhere in the text.
\<close>

definition regex_test :: "string list \<Rightarrow> string \<Rightarrow> bool" where
  "regex_test alts text =
     list_ex (\<lambda>i. list_ex (\<lambda>alt. prefix alt (drop i text)) alts) [0..<Suc (length text)]"

text \<open>\<^verbatim>\<open>raw.replace(/^\./, "")\<close>\<close>

fun drop_leading_dot :: "string \<Rightarrow> string" where
  "drop_leading_dot [] = []"
| "drop_leading_dot (c # cs) = (if c = CHR ''.'' then cs else c # cs)"

text \<open>The loop over \<^verbatim>\<open>currentConfig.matchStrings\<close>.\<close>

fun strip_first_prefix :: "string list \<Rightarrow> string \<Rightarrow> string option" where
  "strip_first_prefix [] fullText = None"
| "strip_first_prefix (p # ps) fullText =
     (if fullText = p \<or> prefix (p @ ''.'') fullText
      then Some (drop_leading_dot (drop (length p) fullText))
      else strip_first_prefix ps fullText)"

definition extractKeyFromFullText :: "ConfigInterface \<Rightarrow> string \<Rightarrow> string option" where
  "extractKeyFromFullText cfg fullText =
     (if fullText = [] then None
      else if \<not> regex_test (buildRegexFromVariables (matchStrings cfg)) fullText then None
      else strip_first_prefix (matchStrings cfg) fullText)"

section \<open>Best-key disambiguation\<close>

definition is_quote :: "char \<Rightarrow> bool" where
  "is_quote c = (c = CHR 0x27 \<or> c = CHR 0x22)"

text \<open>
  \<^verbatim>\<open>fullText.replace(/^['"]|['"]$/g, "")\<close>: every match is removed. The first
  alternative matches a quote at position 0, the second a quote at the last position
  that the first has not taken already.
\<close>

definition clean_quotes :: "string \<Rightarrow> string" where
  "clean_quotes fullText =
     (let s1 = (case fullText of [] \<Rightarrow> [] | c # cs \<Rightarrow> if is_quote c then cs else c # cs)
      in if s1 \<noteq> [] \<and> is_quote (last s1) then butlast s1 else s1)"

text \<open>The inner loop: \<^verbatim>\<open>for (const jsonData of Object.values(allJson))\<close>.\<close>

fun defined_in_some :: "proto_env \<Rightarrow> jsval list \<Rightarrow> string \<Rightarrow> bool" where
  "defined_in_some env [] candidate = False"
| "defined_in_some env (jsonData # rest) candidate =
     (if getValueByKey env jsonData candidate \<noteq> JUndefined then True
      else defined_in_some env rest candidate)"

text \<open>The outer loop: \<^verbatim>\<open>for (const candidate of candidates)\<close>.\<close>

fun first_candidate :: "proto_env \<Rightarrow> string list \<Rightarrow> jsval list \<Rightarrow> string option" where
  "first_candidate env [] trees = None"
| "first_candidate env (candidate # rest) trees =
     (if defined_in_some env trees candidate then Some candidate
      else first_candidate env rest trees)"

text \<open>
  \<^verbatim>\<open>getBestKeyFromFullText(fullText, allJson)\<close>. \<open>allJson\<close> is the cache as
  \<^verbatim>\<open>Object.entries\<close> enumerates it. \<^verbatim>\<open>if (stripped)\<close> fails for
  \<^verbatim>\<open>null\<close> and for the empty string.
\<close>

definition getBestKeyFromFullText ::
  "ConfigInterface \<Rightarrow> proto_env \<Rightarrow> string \<Rightarrow> (string \<times> jsval) list \<Rightarrow> string option" where
  "getBestKeyFromFullText cfg env fullText allJson =
     (if fullText = [] then None
      else
        let cleaned = clean_quotes fullText in
        if cleaned = [] then None
        else
          let candidates1 =
                (case extractKeyFromFullText cfg cleaned of
                   None \<Rightarrow> []
                 | Some stripped \<Rightarrow> if stripped \<noteq> [] then [stripped] else []);
              candidates =
                (if cleaned \<in> set candidates1 then candidates1 else candidates1 @ [cleaned])
          in first_candidate env candidates (map snd allJson))"

text \<open>The first lines of \<^verbatim>\<open>provideHover\<close> and \<^verbatim>\<open>provideDefinition\<close>: the
  key under the cursor. \<^verbatim>\<open>if (!fullText) return\<close> stops on \<^verbatim>\<open>null\<close> and on
  the empty string.\<close>

definition key_at_position ::
  "ConfigInterface \<Rightarrow> proto_env \<Rightarrow> (string \<times> jsval) list \<Rightarrow> string \<Rightarrow> nat \<Rightarrow> string option" where
  "key_at_position cfg env allJson lineText character =
     (case getFullTextAtPosition lineText character of
        None \<Rightarrow> None
      | Some fullText \<Rightarrow>
          if fullText = [] then None else getBestKeyFromFullText cfg env fullText allJson)"

section \<open>Hover\<close>

text \<open>
  The loop of \<^verbatim>\<open>provideHover\<close> appends one block
  \<^verbatim>\<open>**lang**: value\<close> for every entry of the cache whose lookup is not
  \<^verbatim>\<open>undefined\<close>; \<^verbatim>\<open>provideDefinition\<close> searches a location for the same
  entries. The blocks are kept as pairs of the label and the value found.
\<close>

fun hover_blocks :: "proto_env \<Rightarrow> (string \<times> jsval) list \<Rightarrow> string \<Rightarrow> (string \<times> jsval) list" where
  "hover_blocks env [] key = []"
| "hover_blocks env ((lang, jsonData) # rest) key =
     (if getValueByKey env jsonData key \<noteq> JUndefined
      then (lang, getValueByKey env jsonData key) # hover_blocks env rest key
      else hover_blocks env rest key)"

section \<open>Completion\<close>

datatype CompletionItemKind = Property

record CompletionItem =
  label :: string
  kind :: CompletionItemKind
  detail :: string
  documentation :: "string option"

text \<open>The two collections of \<^verbatim>\<open>provideCompletionItems\<close>: the set of child keys
  seen, and the map from child key to item in insertion order.\<close>

record completion_state =
  keySet :: "string list"
  suggestionMap :: "(string \<times> CompletionItem) list"

text \<open>\<^verbatim>\<open>`- **${lang}**: ${value}\n`\<close>\<close>

definition doc_line :: "string \<Rightarrow> string \<Rightarrow> string" where
  "doc_line lang v = ''- **'' @ lang @ ''**: '' @ v @ [CHR 0x0A]"

text \<open>\<^verbatim>\<open>`${keyPrefix}.${childKey}`\<close>, or the child key alone at the root.\<close>

definition full_key :: "string \<Rightarrow> string \<Rightarrow> string" where
  "full_key keyPrefix childKey =
     (if keyPrefix = [] then childKey else keyPrefix @ ''.'' @ childKey)"

text \<open>The block \<^verbatim>\<open>if (!keySet.has(childKey)) { ... }\<close>: a child key seen for the
  first time enters the set, and a fresh item enters the map.\<close>

definition register_key :: "string \<Rightarrow> completion_state \<Rightarrow> completion_state" where
  "register_key childKey st =
     (if childKey \<notin> set (keySet st)
      then \<lparr>keySet = keySet st @ [childKey],
            suggestionMap =
              AList.update childKey
                \<lparr>label = childKey, kind = Property, detail = childKey, documentation = None\<rparr>
                (suggestionMap st)\<rparr>
      else st)"

text \<open>The body of \<^verbatim>\<open>for (const childKey of Object.keys(node))\<close>.
  \<^verbatim>\<open>value && typeof value === "string"\<close> holds for a string that is not empty.
  The item is in the map whenever the key is in the set, so
  \<^verbatim>\<open>suggestionMap.get(childKey)!\<close> finds it.\<close>

definition child_step ::
  "proto_env \<Rightarrow> string \<Rightarrow> string \<Rightarrow> jsval \<Rightarrow> string \<Rightarrow> completion_state \<Rightarrow> completion_state" where
  "child_step env keyPrefix lang jsonData childKey st =
     (let st1 = register_key childKey st
      in case getValueByKey env jsonData (full_key keyPrefix childKey) of
           JStr v \<Rightarrow>
             (if v \<noteq> [] then
                (case map_of (suggestionMap st1) childKey of
                   Some item \<Rightarrow>
                     let prevDoc = (case documentation item of Some d \<Rightarrow> d | None \<Rightarrow> [])
                     in st1\<lparr>suggestionMap :=
                              AList.update childKey
                                (item\<lparr>documentation := Some (prevDoc @ doc_line lang v)\<rparr>)
                                (suggestionMap st1)\<rparr>
                 | None \<Rightarrow> st1)
              else st1)
         | _ \<Rightarrow> st1)"

text \<open>\<^verbatim>\<open>typeof node === "object" && node !== null\<close>. A value of the runtime has no
  enumerable property, so the loop over its keys would not run in any case.\<close>

fun is_object :: "jsval \<Rightarrow> bool" where
  "is_object (JObj kvs) = True"
| "is_object (JArr xs) = True"
| "is_object v = False"

text \<open>The body of \<^verbatim>\<open>for (const [lang, jsonData] of Object.entries(allJson))\<close>.\<close>

definition lang_step ::
  "proto_env \<Rightarrow> string \<Rightarrow> completion_state \<Rightarrow> string \<times> jsval \<Rightarrow> completion_state" where
  "lang_step env keyPrefix st entry =
     (let lang = fst entry; jsonData = snd entry;
          node = (if keyPrefix = [] then jsonData else getValueByKey env jsonData keyPrefix)
      in if is_object node
         then foldl (\<lambda>s childKey. child_step env keyPrefix lang jsonData childKey s)
                st (object_keys node)
         else st)"

text \<open>The suggestions for a key prefix: \<^verbatim>\<open>Array.from(suggestionMap.values())\<close>.\<close>

definition completion_items ::
  "proto_env \<Rightarrow> string \<Rightarrow> (string \<times> jsval) list \<Rightarrow> CompletionItem list" where
  "completion_items env keyPrefix allJson =
     map snd (suggestionMap
       (foldl (lang_step env keyPrefix) \<lparr>keySet = [], suggestionMap = []\<rparr> allJson))"

text \<open>\<^verbatim>\<open>provideCompletionItems(document, position, ...)\<close>; \<open>None\<close> is the plain
  \<^verbatim>\<open>return\<close>.\<close>

definition provideCompletionItems ::
  "ConfigInterface \<Rightarrow> proto_env \<Rightarrow> (string \<times> jsval) list \<Rightarrow> string \<Rightarrow> string \<Rightarrow> nat
     \<Rightarrow> CompletionItem list option" where
  "provideCompletionItems cfg env allJson languageId lineText character =
     (if languageId \<notin> set (workInFiles cfg) then None
      else
        let posForWord = (if character > 0 then character - 1 else character) in
        case getFullTextAtPosition lineText posForWord of
          None \<Rightarrow> None
        | Some fullMatch \<Rightarrow>
            if fullMatch = [] then None
            else
              (case extractKeyFromFullText cfg fullMatch of
                 None \<Rightarrow> None
               | Some keyPrefix \<Rightarrow> Some (completion_items env keyPrefix allJson)))"

section \<open>The procedures as the specification words them\<close>

text \<open>Removing duplicates, the first occurrence of each element staying in place.\<close>

fun dedup_acc :: "'a list \<Rightarrow> 'a list \<Rightarrow> 'a list" where
  "dedup_acc seen [] = []"
| "dedup_acc seen (x # xs) =
     (if x \<in> set seen then dedup_acc seen xs else x # dedup_acc (x # seen) xs)"

definition dedup_first :: "'a list \<Rightarrow> 'a list" where
  "dedup_first xs = dedup_acc [] xs"

text \<open>A key exists in a document set when its lookup is defined in some tree.\<close>

definition exists_in_some :: "proto_env \<Rightarrow> (string \<times> jsval) list \<Rightarrow> string \<Rightarrow> bool" where
  "exists_in_some env documentSet key =
     list_ex (\<lambda>tree. getValueByKey env tree key \<noteq> JUndefined) (map snd documentSet)"

text \<open>
  Best-key disambiguation in the words of the specification: candidate A is the
  extracted key whenever extraction succeeds, candidate B the trimmed text, always; the
  first of them, without duplicates, that exists in some tree is returned.
\<close>

definition resolveBestKey_spec ::
  "ConfigInterface \<Rightarrow> proto_env \<Rightarrow> string \<Rightarrow> (string \<times> jsval) list \<Rightarrow> string option" where
  "resolveBestKey_spec cfg env spanText documentSet =
     (let trimmed = clean_quotes spanText;
          candidateA = (case extractKeyFromFullText cfg trimmed of None \<Rightarrow> [] | Some k \<Rightarrow> [k])
      in find (exists_in_some env documentSet) (dedup_first (candidateA @ [trimmed])))"

text \<open>
  Quote trimming in the words of the specification: one layer of enclosing quotes is
  removed when both ends carry the same quote character.
\<close>

definition trim_enclosing_quotes_spec :: "string \<Rightarrow> string" where
  "trim_enclosing_quotes_spec spanText =
     (if 2 \<le> length spanText \<and> is_quote (hd spanText) \<and> last spanText = hd spanText
      then butlast (tl spanText) else spanText)"

definition starts_with_quote :: "string \<Rightarrow> bool" where
  "starts_with_quote s = (s \<noteq> [] \<and> is_quote (hd s))"

definition ends_with_quote :: "string \<Rightarrow> bool" where
  "ends_with_quote s = (s \<noteq> [] \<and> is_quote (last s))"

text \<open>
  Span extraction in the words of the specification: the maximal run of allowed
  characters around the cursor, the characters before it scanned leftwards and those
  from it on scanned rightwards; none when the run is empty.
\<close>

definition extractReferenceSpan_spec :: "string \<Rightarrow> nat \<Rightarrow> string option" where
  "extractReferenceSpan_spec lineText cursorOffset =
     (let run = rev (takeWhile (\<lambda>c. c \<in> set allowed_chars) (rev (take cursorOffset lineText)))
                @ takeWhile (\<lambda>c. c \<in> set allowed_chars) (drop cursorOffset lineText)
      in if run = [] then None else Some run)"

section \<open>Completion as the specification words it\<close>

text \<open>The node whose children are suggested for one label: the whole tree for the
  empty key prefix, the lookup of the key prefix otherwise.\<close>

definition node_at :: "proto_env \<Rightarrow> string \<Rightarrow> jsval \<Rightarrow> jsval" where
  "node_at env keyPrefix jsonData =
     (if keyPrefix = [] then jsonData else getValueByKey env jsonData keyPrefix)"

text \<open>The child keys one label contributes: none unless its node is a container.\<close>

definition child_keys :: "proto_env \<Rightarrow> string \<Rightarrow> string \<times> jsval \<Rightarrow> string list" where
  "child_keys env keyPrefix entry = object_keys (node_at env keyPrefix (snd entry))"

text \<open>The documentation line of one label for a child key: a line when the lookup of
  the child's full key in the label's tree is a string that is not empty, nothing
  otherwise.\<close>

definition label_line :: "proto_env \<Rightarrow> string \<Rightarrow> string \<Rightarrow> string \<times> jsval \<Rightarrow> string" where
  "label_line env keyPrefix childKey entry =
     (case getValueByKey env (snd entry) (full_key keyPrefix childKey) of
        JStr v \<Rightarrow> if v \<noteq> [] then doc_line (fst entry) v else []
      | _ \<Rightarrow> [])"

text \<open>The documentation of a child key: the lines of the labels that list the child,
  in the order of the labels; absent when there is no line.\<close>

definition documentation_for ::
  "proto_env \<Rightarrow> string \<Rightarrow> (string \<times> jsval) list \<Rightarrow> string \<Rightarrow> string option" where
  "documentation_for env keyPrefix allJson childKey =
     (let lines =
            concat (map (\<lambda>entry. if childKey \<in> set (child_keys env keyPrefix entry)
                                 then label_line env keyPrefix childKey entry else [])
                      allJson)
      in if lines = [] then None else Some lines)"

text \<open>A scalar leaf in the sense of the specification's data model: a string, a number
  or a boolean.\<close>

fun is_scalar_leaf :: "jsval \<Rightarrow> bool" where
  "is_scalar_leaf (JStr s) = True"
| "is_scalar_leaf (JNum n) = True"
| "is_scalar_leaf (JBool b) = True"
| "is_scalar_leaf v = False"

subsection \<open>What the completion loops maintain\<close>

text \<open>The documentation text gathered so far for a child key.\<close>

definition doc_text :: "completion_state \<Rightarrow> string \<Rightarrow> string" where
  "doc_text st k =
     (case map_of (suggestionMap st) k of
        None \<Rightarrow> []
      | Some item \<Rightarrow> (case documentation item of None \<Rightarrow> [] | Some d \<Rightarrow> d))"

text \<open>The set and the map hold the same keys, each once, and the item stored under a
  key carries that key; a documentation that is present is not empty.\<close>

definition completion_inv :: "completion_state \<Rightarrow> bool" where
  "completion_inv st =
     (map fst (suggestionMap st) = keySet st \<and> distinct (keySet st) \<and>
      list_all (\<lambda>(k, item). label item = k \<and> detail item = k \<and> documentation item \<noteq> Some [])
        (suggestionMap st))"

section \<open>The document store\<close>

subsection \<open>Records keyed by strings\<close>

text \<open>
  A \<^verbatim>\<open>Record<string, V>\<close> is the list of its own properties in the order of
  enumeration: the names that are array indices come first, in ascending order, and the
  other names follow in the order in which they were created.
\<close>

definition is_digit :: "char \<Rightarrow> bool" where
  "is_digit c = (c \<in> set ''0123456789'')"

definition digit_value :: "char \<Rightarrow> nat" where
  "digit_value c = length (takeWhile (\<lambda>d. d \<noteq> c) ''0123456789'')"

fun parse_nat :: "nat \<Rightarrow> string \<Rightarrow> nat" where
  "parse_nat acc [] = acc"
| "parse_nat acc (c # cs) = parse_nat (10 * acc + digit_value c) cs"

text \<open>The array index a property name denotes: the name is the decimal numeral, without
  leading zeros, of a number below \<open>2\<^sup>3\<^sup>2 - 1\<close>.\<close>

definition array_index :: "string \<Rightarrow> nat option" where
  "array_index s =
     (if s \<noteq> [] \<and> list_all is_digit s \<and> (length s = 1 \<or> hd s \<noteq> CHR ''0'')
         \<and> parse_nat 0 s < 4294967295
      then Some (parse_nat 0 s) else None)"

text \<open>Whether the existing name \<open>k'\<close> is enumerated before the new name \<open>k\<close>:
  always when \<open>k\<close> is no array index, and otherwise when \<open>k'\<close> is a smaller one.\<close>

definition stays_before :: "string \<Rightarrow> string \<Rightarrow> bool" where
  "stays_before k' k =
     (case array_index k of
        None \<Rightarrow> True
      | Some n \<Rightarrow> (case array_index k' of None \<Rightarrow> False | Some m \<Rightarrow> m < n))"

text \<open>A new property takes its place in the order of enumeration.\<close>

fun js_insert :: "string \<Rightarrow> 'v \<Rightarrow> (string \<times> 'v) list \<Rightarrow> (string \<times> 'v) list" where
  "js_insert k v [] = [(k, v)]"
| "js_insert k v ((k', v') # rest) =
     (if stays_before k' k then (k', v') # js_insert k v rest
      else (k, v) # (k', v') # rest)"

text \<open>\<^verbatim>\<open>record[k] = v\<close> for a name other than \<^verbatim>\<open>__proto__\<close>: an existing
  property keeps its place and takes the new value.\<close>

definition js_set :: "string \<Rightarrow> 'v \<Rightarrow> (string \<times> 'v) list \<Rightarrow> (string \<times> 'v) list" where
  "js_set k v r = (if k \<in> set (map fst r) then AList.update k v r else js_insert k v r)"

subsection \<open>State\<close>

text \<open>
  The three module-level records and the console. A watcher is kept as the relative path
  its callbacks were created for. Full paths are the results of
  \<^verbatim>\<open>path.resolve\<close>, which are absolute paths.
\<close>

record store =
  jsonCache :: "(string \<times> jsval) list"
  jsonWatchers :: "(string \<times> string) list"
  jsonPathLabels :: "(string \<times> string) list"
  console :: "string list"

definition initial_store :: store where
  "initial_store = \<lparr>jsonCache = [], jsonWatchers = [], jsonPathLabels = [], console = []\<rparr>"

text \<open>\<^verbatim>\<open>getAllCachedJson()\<close>\<close>

definition getAllCachedJson :: "store \<Rightarrow> (string \<times> jsval) list" where
  "getAllCachedJson st = jsonCache st"

text \<open>
  The functions of Node's \<^verbatim>\<open>path\<close> module that the store calls, as parameters:
  \<^verbatim>\<open>path.resolve(root, relativePath)\<close> and \<^verbatim>\<open>path.basename(fullPath, ".json")\<close>.
\<close>

record node_path =
  path_resolve :: "string \<Rightarrow> string"
  path_basename :: "string \<Rightarrow> string"

text \<open>
  Reading and parsing a file, \<^verbatim>\<open>JSON.parse(fs.readFileSync(fullPath, "utf-8"))\<close>:
  the parsed value, or the message of the error thrown by either call. The content of the
  files changes outside the extension, so every step takes the reader of its moment.
\<close>

type_synonym file_reader = "string \<Rightarrow> string + jsval"

text \<open>
  \<^verbatim>\<open>jsonCache[label] = value\<close>. The cache is keyed by labels, which are file names;
  assigning to the name \<^verbatim>\<open>__proto__\<close> runs the setter inherited from
  \<^verbatim>\<open>Object.prototype\<close> and creates no property.
\<close>

definition cache_assign :: "string \<Rightarrow> jsval \<Rightarrow> (string \<times> jsval) list \<Rightarrow> (string \<times> jsval) list" where
  "cache_assign lbl v cache = (if lbl = ''__proto__'' then cache else js_set lbl v cache)"

definition error_message :: "string \<Rightarrow> string \<Rightarrow> string" where
  "error_message relativePath msg =
     ''[vscode-ext-show-translation] Error reading '' @ relativePath @ '': '' @ msg"

text \<open>The closure \<^verbatim>\<open>loadFile\<close> of one configured path.\<close>

definition loadFile :: "node_path \<Rightarrow> file_reader \<Rightarrow> string \<Rightarrow> store \<Rightarrow> store" where
  "loadFile np rd relativePath st =
     (let fullPath = path_resolve np relativePath;
          lbl = path_basename np fullPath
      in case rd fullPath of
           Inr parsed \<Rightarrow> st\<lparr>jsonCache := cache_assign lbl parsed (jsonCache st)\<rparr>
         | Inl msg \<Rightarrow>
             st\<lparr>console := console st @ [error_message relativePath msg],
                jsonCache := cache_assign lbl (JObj []) (jsonCache st)\<rparr>)"

text \<open>
  The body of the first loop of \<^verbatim>\<open>handleJsonCacheAndWatcher\<close>, over the
  configured paths, with \<^verbatim>\<open>newFullPaths\<close> and \<^verbatim>\<open>newLabels\<close> as
  accumulators: the path is recorded, its file is loaded, and a watcher is set up unless
  the path has one.
\<close>

definition track_step ::
  "node_path \<Rightarrow> file_reader \<Rightarrow> string
     \<Rightarrow> string list \<times> (string \<times> string) list \<times> store
     \<Rightarrow> string list \<times> (string \<times> string) list \<times> store" where
  "track_step np rd relativePath acc =
     (case acc of (newFullPaths, newLabels, st) \<Rightarrow>
        let fullPath = path_resolve np relativePath;
            lbl = path_basename np fullPath;
            st1 = loadFile np rd relativePath st;
            st2 = (if map_of (jsonWatchers st1) fullPath = None
                   then st1\<lparr>jsonWatchers := js_set fullPath relativePath (jsonWatchers st1)\<rparr>
                   else st1)
        in (List.insert fullPath newFullPaths, js_set fullPath lbl newLabels, st2))"

fun track_paths ::
  "node_path \<Rightarrow> file_reader \<Rightarrow> string list
     \<Rightarrow> string list \<times> (string \<times> string) list \<times> store
     \<Rightarrow> string list \<times> (string \<times> string) list \<times> store" where
  "track_paths np rd [] acc = acc"
| "track_paths np rd (relativePath # rest) acc =
     track_paths np rd rest (track_step np rd relativePath acc)"

text \<open>
  The body of the second loop, for one entry of \<^verbatim>\<open>Object.entries(jsonWatchers)\<close>:
  a path that is no longer configured loses its watcher, the cache entry of its label
  and its label. \<^verbatim>\<open>if (label)\<close> fails for a missing label and for the empty one.
\<close>

definition untrack_step :: "string list \<Rightarrow> string \<Rightarrow> store \<Rightarrow> store" where
  "untrack_step newFullPaths fullPath st =
     (if fullPath \<notin> set newFullPaths then
        let st1 = st\<lparr>jsonWatchers := AList.delete fullPath (jsonWatchers st)\<rparr>;
            st2 = (case map_of (jsonPathLabels st1) fullPath of
                     None \<Rightarrow> st1
                   | Some lbl \<Rightarrow>
                       if lbl \<noteq> [] then st1\<lparr>jsonCache := AList.delete lbl (jsonCache st1)\<rparr>
                       else st1)
        in st2\<lparr>jsonPathLabels := AList.delete fullPath (jsonPathLabels st2)\<rparr>
      else st)"

text \<open>The second loop runs over the entries the record had when the loop began.\<close>

fun untrack_paths :: "string list \<Rightarrow> (string \<times> string) list \<Rightarrow> store \<Rightarrow> store" where
  "untrack_paths newFullPaths [] st = st"
| "untrack_paths newFullPaths ((fullPath, watcher) # rest) st =
     untrack_paths newFullPaths rest (untrack_step newFullPaths fullPath st)"

definition handleJsonCacheAndWatcher ::
  "node_path \<Rightarrow> file_reader \<Rightarrow> string list \<Rightarrow> store \<Rightarrow> store" where
  "handleJsonCacheAndWatcher np rd configPaths st =
     (case track_paths np rd configPaths ([], [], st) of
        (newFullPaths, newLabels, st1) \<Rightarrow>
          (untrack_paths newFullPaths (jsonWatchers st1) st1)\<lparr>jsonPathLabels := newLabels\<rparr>)"

text \<open>
  \<^verbatim>\<open>handleJsonCacheAndWatcher\<close> as \<^verbatim>\<open>src/src/extension.ts\<close> has it: the
  one loop over the configured paths, which loads the file and sets up a watcher unless
  the path has one. That file has no \<^verbatim>\<open>jsonPathLabels\<close> and no second loop, and
  its \<^verbatim>\<open>loadFile\<close> differs only in showing the message as a warning instead of
  writing it to the console; both are the list \<open>console\<close> here.
\<close>

definition load_and_watch :: "node_path \<Rightarrow> file_reader \<Rightarrow> string \<Rightarrow> store \<Rightarrow> store" where
  "load_and_watch np rd relativePath st =
     (let fullPath = path_resolve np relativePath;
          st1 = loadFile np rd relativePath st
      in if map_of (jsonWatchers st1) fullPath = None
         then st1\<lparr>jsonWatchers := js_set fullPath relativePath (jsonWatchers st1)\<rparr>
         else st1)"

definition handleJsonCacheAndWatcher_extension_ts ::
  "node_path \<Rightarrow> file_reader \<Rightarrow> string list \<Rightarrow> store \<Rightarrow> store" where
  "handleJsonCacheAndWatcher_extension_ts np rd configPaths st =
     foldl (\<lambda>s relativePath. load_and_watch np rd relativePath s) st configPaths"

subsection \<open>Events\<close>

text \<open>
  What reaches the store: a new list of configured paths, and the notifications of the
  file watchers, each for the full path of a watched file. A watcher that was disposed
  of delivers nothing.
\<close>

datatype event =
    ConfigChanged "string list"
  | FileChanged string
  | FileCreated string
  | FileDeleted string

fun store_step :: "node_path \<Rightarrow> file_reader \<Rightarrow> event \<Rightarrow> store \<Rightarrow> store" where
  "store_step np rd (ConfigChanged configPaths) st = handleJsonCacheAndWatcher np rd configPaths st"
| "store_step np rd (FileChanged fullPath) st =
     (case map_of (jsonWatchers st) fullPath of
        None \<Rightarrow> st
      | Some relativePath \<Rightarrow> loadFile np rd relativePath st)"
| "store_step np rd (FileCreated fullPath) st =
     (case map_of (jsonWatchers st) fullPath of
        None \<Rightarrow> st
      | Some relativePath \<Rightarrow> loadFile np rd relativePath st)"
| "store_step np rd (FileDeleted fullPath) st =
     (case map_of (jsonWatchers st) fullPath of
        None \<Rightarrow> st
      | Some relativePath \<Rightarrow>
          st\<lparr>jsonCache :=
               cache_assign (path_basename np (path_resolve np relativePath)) (JObj [])
                 (jsonCache st)\<rparr>)"

text \<open>A history: the events in order, each with the reader of its moment.\<close>

fun run_store :: "node_path \<Rightarrow> (file_reader \<times> event) list \<Rightarrow> store \<Rightarrow> store" where
  "run_store np [] st = st"
| "run_store np ((rd, ev) # rest) st = run_store np rest (store_step np rd ev st)"

text \<open>The relative paths a history ever configured, and those of its last configuration.\<close>

fun configured_ever :: "(file_reader \<times> event) list \<Rightarrow> string list" where
  "configured_ever [] = []"
| "configured_ever ((rd, ConfigChanged configPaths) # rest) = configPaths @ configured_ever rest"
| "configured_ever ((rd, ev) # rest) = configured_ever rest"

fun configured_now :: "string list \<Rightarrow> (file_reader \<times> event) list \<Rightarrow> string list" where
  "configured_now cur [] = cur"
| "configured_now cur ((rd, ConfigChanged configPaths) # rest) = configured_now configPaths rest"
| "configured_now cur ((rd, ev) # rest) = configured_now cur rest"

text \<open>The label of a relative path, and the tree a load of it leaves in the cache.\<close>

definition label_of :: "node_path \<Rightarrow> string \<Rightarrow> string" where
  "label_of np relativePath = path_basename np (path_resolve np relativePath)"

definition loaded_tree :: "node_path \<Rightarrow> file_reader \<Rightarrow> string \<Rightarrow> jsval" where
  "loaded_tree np rd relativePath =
     (case rd (path_resolve np relativePath) of Inr parsed \<Rightarrow> parsed | Inl msg \<Rightarrow> JObj [])"

text \<open>
  The requirement of the specification's data model on a configuration, taken over the
  paths of a whole history: two paths with the same label are the same file, and no
  label is empty or \<^verbatim>\<open>__proto__\<close>.
\<close>

definition labels_unique :: "node_path \<Rightarrow> string list \<Rightarrow> bool" where
  "labels_unique np relPaths =
     (list_all (\<lambda>p. label_of np p \<noteq> [] \<and> label_of np p \<noteq> ''__proto__'') relPaths
      \<and> list_all (\<lambda>p. list_all (\<lambda>q. label_of np p = label_of np q
                                   \<longrightarrow> path_resolve np p = path_resolve np q) relPaths) relPaths)"

subsection \<open>A concrete host for examples\<close>

text \<open>
  For the examples, \<^verbatim>\<open>path\<close> on a POSIX system with the workspace at
  \<^verbatim>\<open>/w\<close>, for relative paths made of plain names separated by \<^verbatim>\<open>/\<close>:
  resolving puts the root in front, and the base name is the part after the last
  \<^verbatim>\<open>/\<close> without its \<^verbatim>\<open>.json\<close> ending.
\<close>

definition last_component :: "string \<Rightarrow> string" where
  "last_component p = rev (takeWhile (\<lambda>c. c \<noteq> CHR ''/'') (rev p))"

definition strip_json :: "string \<Rightarrow> string" where
  "strip_json name =
     (if length name > 5 \<and> drop (length name - 5) name = ''.json''
      then take (length name - 5) name else name)"

definition posix_path :: node_path where
  "posix_path =
     \<lparr>path_resolve = (\<lambda>relativePath. ''/w/'' @ relativePath),
      path_basename = (\<lambda>fullPath. strip_json (last_component fullPath))\<rparr>"

subsection \<open>What the store maintains\<close>

text \<open>
  Each record holds a name once; the watched paths are the paths with a label; a label
  is the base name of its path; a watcher reloads the path it is registered under; the
  cache holds exactly the labels of the tracked paths, which are among the paths \<open>U\<close>.
\<close>

definition store_inv :: "node_path \<Rightarrow> string list \<Rightarrow> store \<Rightarrow> bool" where
  "store_inv np U st =
     (distinct (map fst (jsonCache st)) \<and> distinct (map fst (jsonWatchers st))
      \<and> distinct (map fst (jsonPathLabels st))
      \<and> set (map fst (jsonWatchers st)) = set (map fst (jsonPathLabels st))
      \<and> list_all (\<lambda>(p, l). l = path_basename np p) (jsonPathLabels st)
      \<and> list_all (\<lambda>(p, rel). path_resolve np rel = p) (jsonWatchers st)
      \<and> set (map fst (jsonCache st)) = path_basename np ` set (map fst (jsonPathLabels st))
      \<and> set (map fst (jsonPathLabels st)) \<subseteq> path_resolve np ` set U)"

text \<open>The labels whose cache entries the second loop deletes.\<close>

definition dropped_labels :: "string list \<Rightarrow> (string \<times> string) list \<Rightarrow> store \<Rightarrow> string set" where
  "dropped_labels nfp es st =
     {l. l \<noteq> [] \<and> (\<exists>p\<in>set (map fst es) - set nfp. map_of (jsonPathLabels st) p = Some l)}"

chapter \<open>Properties\<close>

section \<open>Splitting and joining keys\<close>

lemma split_dot_not_Nil: "split_dot key \<noteq> []"
  by (induction key) (auto split: list.splits)




lemma split_dot_dotfree_word:
  "CHR ''.'' \<notin> set s \<Longrightarrow> split_dot (s @ CHR ''.'' # rest) = s # split_dot rest"
  by (induction s) (auto split: list.splits)

lemma split_dot_single: "CHR ''.'' \<notin> set s \<Longrightarrow> split_dot s = [s]"
  by (induction s) (auto split: list.splits)

text \<open>Splitting is the inverse of joining dot-free segments, so every non-empty list
  of dot-free segments is the split of exactly one key.\<close>

lemma split_join_dot:
  "segs \<noteq> [] \<Longrightarrow> list_all (\<lambda>s. CHR ''.'' \<notin> set s) segs \<Longrightarrow> split_dot (join_dot segs) = segs"
proof (induction segs rule: join_dot.induct)
  case 1
  then show ?case by simp
next
  case (2 s)
  then show ?case by (simp add: split_dot_single)
next
  case (3 s t ts)
  then show ?case by (simp add: split_dot_dotfree_word)
qed

section \<open>Nested lookup\<close>

lemma foldl_get_prop_undefined: "foldl (get_prop env) JUndefined segs = JUndefined"
  by (induction segs) auto







section \<open>Prefix recognition\<close>

lemma strip_first_prefix_find:
  "strip_first_prefix ms t =
     (case find (\<lambda>p. t = p \<or> prefix (p @ ''.'') t) ms of
        None \<Rightarrow> None
      | Some p \<Rightarrow> Some (if t = p then [] else drop (Suc (length p)) t))"
proof (induction ms)
  case Nil
  show ?case by simp
next
  case (Cons p ps)
  have dot: "drop_leading_dot (drop (length p) t) = drop (Suc (length p)) t"
    if "prefix (p @ ''.'') t"
  proof -
    from that obtain r where "t = (p @ ''.'') @ r" by (auto simp: prefix_def)
    then show ?thesis by simp
  qed
  show ?case using Cons.IH dot by auto
qed

text \<open>The test against the pattern never rejects a text that the loop would accept:
  a text that starts with a configured name contains it.\<close>

lemma regex_test_prefix:
  assumes "p \<in> set ms" "prefix p t"
  shows "regex_test (buildRegexFromVariables ms) t"
proof -
  have "ms \<noteq> []" using assms(1) by auto
  then have alts: "buildRegexFromVariables ms = ms" by (simp add: buildRegexFromVariables_def)
  have "list_ex (\<lambda>alt. prefix alt (drop 0 t)) ms"
    using assms by (auto simp: list_ex_iff)
  moreover have "0 \<in> set [0..<Suc (length t)]" by simp
  ultimately show ?thesis unfolding regex_test_def alts list_ex_iff by blast
qed

lemma strip_first_prefix_regex:
  assumes "strip_first_prefix ms t = Some r"
  shows "regex_test (buildRegexFromVariables ms) t"
proof -
  from assms obtain p where f: "find (\<lambda>p. t = p \<or> prefix (p @ ''.'') t) ms = Some p"
    by (auto simp: strip_first_prefix_find split: option.splits)
  then have "p \<in> set ms" and "t = p \<or> prefix (p @ ''.'') t"
    by (auto simp: find_Some_iff)
  moreover have "prefix p t" using calculation(2) by (auto simp: prefix_def)
  ultimately show ?thesis using regex_test_prefix by blast
qed

lemma extractKeyFromFullText_strip:
  "fullText \<noteq> [] \<Longrightarrow>
     extractKeyFromFullText cfg fullText = strip_first_prefix (matchStrings cfg) fullText"
  using strip_first_prefix_regex [of "matchStrings cfg" fullText]
  by (cases "strip_first_prefix (matchStrings cfg) fullText")
     (auto simp: extractKeyFromFullText_def)

text \<open>
  C3. For every non-empty text (a span is never empty) and every ordered list of
  prefixes, \<^verbatim>\<open>extractKeyFromFullText\<close> is decided by the first configured prefix
  that the text equals or starts with followed by a dot: the result is the text with that
  prefix and the one dot after it removed, possibly empty; with no such prefix the result
  is \<^verbatim>\<open>null\<close>. The three examples of the specification hold.
\<close>

theorem extractKeyFromFullText_first_prefix:
  assumes "fullText \<noteq> []"
  shows "extractKeyFromFullText cfg fullText =
           (case find (\<lambda>p. fullText = p \<or> prefix (p @ ''.'') fullText) (matchStrings cfg) of
              None \<Rightarrow> None
            | Some p \<Rightarrow> Some (if fullText = p then [] else drop (Suc (length p)) fullText))
         \<and> extractKeyFromFullText (cfg\<lparr>matchStrings := [''this._translate'', ''_translate'']\<rparr>)
              ''_translate.A.B'' = Some ''A.B''
         \<and> extractKeyFromFullText (cfg\<lparr>matchStrings := [''this._translate'', ''_translate'']\<rparr>)
              ''this._translate'' = Some []
         \<and> extractKeyFromFullText (cfg\<lparr>matchStrings := [''this._translate'', ''_translate'']\<rparr>)
              ''unrelated.A'' = None"
  using assms by (simp add: extractKeyFromFullText_strip strip_first_prefix_find)

theorem extractKeyFromFullText_first_prefix_witness:
  "extractKeyFromFullText defaultConfig ''_translate.A.B'' = Some ''A.B''"
  using extractKeyFromFullText_first_prefix [of "''_translate.A.B''" defaultConfig]
  by (simp add: defaultConfig_def defaultMatchStrings_def)

section \<open>Span extraction\<close>

text \<open>
  C4 at a concrete line. \<^verbatim>\<open>getFullTextAtPosition\<close> steps back over the character
  before the cursor without testing it, so that character is part of the result whatever
  it is: with the cursor on the \<^verbatim>\<open>a\<close> of the line \<^verbatim>\<open>" a"\<close> the result is
  \<^verbatim>\<open>" a"\<close>, where the maximal run of allowed characters is \<^verbatim>\<open>"a"\<close>; at the
  end of the line \<^verbatim>\<open>"("\<close> the result is \<^verbatim>\<open>"("\<close>, where the run is empty.
\<close>

theorem getFullTextAtPosition_char_before_cursor:
  "getFullTextAtPosition '' a'' 1 = Some '' a''
   \<and> extractReferenceSpan_spec '' a'' 1 = Some ''a''
   \<and> getFullTextAtPosition ''('' 1 = Some ''(''
   \<and> extractReferenceSpan_spec ''('' 1 = None"
  by (simp add: getFullTextAtPosition_def extractReferenceSpan_spec_def scan_right.simps
      isAllowed_def charAt_def allowed_chars_def substring_def)

text \<open>The two scans stop at the ends of the runs of allowed characters.\<close>

lemma isAllowed_charAt:
  "isAllowed (charAt l i) = (i < length l \<and> l ! i \<in> set allowed_chars)"
  by (simp add: isAllowed_def charAt_def)

lemma scan_right_takeWhile:
  "scan_right l e = e + length (takeWhile (\<lambda>c. c \<in> set allowed_chars) (drop e l))"
proof (induction l e rule: scan_right.induct)
  case (1 l e)
  show ?case
  proof (cases "e < length l \<and> isAllowed (charAt l e)")
    case True
    then have lt: "e < length l" and ok: "l ! e \<in> set allowed_chars"
      by (simp_all add: isAllowed_charAt)
    from lt have "drop e l = l ! e # drop (Suc e) l" by (simp add: Cons_nth_drop_Suc)
    then have "length (takeWhile (\<lambda>c. c \<in> set allowed_chars) (drop e l))
        = Suc (length (takeWhile (\<lambda>c. c \<in> set allowed_chars) (drop (Suc e) l)))"
      using ok by simp
    moreover have "scan_right l e = scan_right l (Suc e)"
      by (subst scan_right.simps, rule if_P, rule True)
    ultimately show ?thesis using "1.IH" [OF True] by simp
  next
    case False
    then have stop: "scan_right l e = e"
      by (subst scan_right.simps, intro if_not_P)
    show ?thesis
    proof (cases "e < length l")
      case True
      with False have bad: "l ! e \<notin> set allowed_chars" by (simp add: isAllowed_charAt)
      from True have "drop e l = l ! e # drop (Suc e) l" by (simp add: Cons_nth_drop_Suc)
      with bad stop show ?thesis by simp
    next
      case False
      with stop show ?thesis by simp
    qed
  qed
qed

lemma scan_left_takeWhile:
  "n \<le> length l \<Longrightarrow>
     scan_left l n = n - length (takeWhile (\<lambda>c. c \<in> set allowed_chars) (rev (take n l)))"
proof (induction n)
  case 0
  show ?case by simp
next
  case (Suc n)
  then have lt: "n < length l" by simp
  then have r: "rev (take (Suc n) l) = l ! n # rev (take n l)"
    by (simp add: take_Suc_conv_app_nth)
  have le: "length (takeWhile (\<lambda>c. c \<in> set allowed_chars) (rev (take n l))) \<le> n"
    using length_takeWhile_le [of "\<lambda>c. c \<in> set allowed_chars" "rev (take n l)"] lt by simp
  have ih: "scan_left l n
      = n - length (takeWhile (\<lambda>c. c \<in> set allowed_chars) (rev (take n l)))"
    using Suc.IH lt by simp
  show ?case
  proof (cases "l ! n \<in> set allowed_chars")
    case True
    then have "scan_left l (Suc n) = scan_left l n"
      using lt by (simp add: isAllowed_charAt)
    moreover have "length (takeWhile (\<lambda>c. c \<in> set allowed_chars) (rev (take (Suc n) l)))
        = Suc (length (takeWhile (\<lambda>c. c \<in> set allowed_chars) (rev (take n l))))"
      using True by (simp only: r takeWhile.simps if_True list.size)
    ultimately show ?thesis using ih le by simp
  next
    case False
    then have "scan_left l (Suc n) = Suc n"
      using lt by (simp add: isAllowed_charAt)
    moreover have "takeWhile (\<lambda>c. c \<in> set allowed_chars) (rev (take (Suc n) l)) = []"
      using False by (simp only: r takeWhile.simps if_False)
    ultimately show ?thesis by simp
  qed
qed

lemma rev_takeWhile_rev:
  "rev (takeWhile P (rev xs)) = drop (length xs - length (takeWhile P (rev xs))) xs"
proof -
  define k where "k = length (takeWhile P (rev xs))"
  have "takeWhile P (rev xs) = take k (rev xs)"
    unfolding k_def by (rule takeWhile_eq_take)
  then have "rev (takeWhile P (rev xs)) = rev (take k (rev xs))"
    by (rule arg_cong)
  also have "\<dots> = drop (length xs - k) xs"
    by (simp add: rev_take)
  finally show ?thesis unfolding k_def .
qed

text \<open>
  Where the cursor stands at the start of the line, or the character before it is an
  allowed one, the result is the maximal run of allowed characters around the cursor,
  and \<^verbatim>\<open>null\<close> when that run is empty.
\<close>

lemma getFullTextAtPosition_maximal_run:
  assumes c: "character \<le> length lineText"
    and before: "character = 0 \<or> lineText ! (character - 1) \<in> set allowed_chars"
  shows "getFullTextAtPosition lineText character = extractReferenceSpan_spec lineText character"
proof (cases "character = 0")
  case True
  let ?r = "takeWhile (\<lambda>c. c \<in> set allowed_chars) lineText"
  have e: "scan_right lineText 0 = length ?r" by (simp add: scan_right_takeWhile)
  have "substring lineText 0 (length ?r) = ?r"
    using length_takeWhile_le [of "\<lambda>c. c \<in> set allowed_chars" lineText]
    by (simp add: substring_def Let_def takeWhile_eq_take [symmetric] min_def max_def)
  with True e show ?thesis
    by (cases lineText) (auto simp: getFullTextAtPosition_def extractReferenceSpan_spec_def Let_def)
next
  case False
  with before have ok: "lineText ! (character - 1) \<in> set allowed_chars" by simp
  from False c have ne: "lineText \<noteq> []" by auto
  let ?P = "\<lambda>c. c \<in> set allowed_chars"
  let ?left = "takeWhile ?P (rev (take character lineText))"
  let ?right = "takeWhile ?P (drop character lineText)"
  from False c have lt: "character - 1 < length lineText" by simp
  from False have suc: "Suc (character - 1) = character" by simp
  have r: "rev (take character lineText)
      = lineText ! (character - 1) # rev (take (character - 1) lineText)"
    using take_Suc_conv_app_nth [OF lt] suc by simp
  then have left: "?left = lineText ! (character - 1)
      # takeWhile ?P (rev (take (character - 1) lineText))"
    using ok by simp
  have start: "scan_left lineText (character - 1) = character - length ?left"
    using scan_left_takeWhile [of "character - 1" lineText] lt left by simp
  have lenl: "length ?left \<le> character" "0 < length ?left"
    using length_takeWhile_le [of ?P "rev (take character lineText)"] c left by simp_all
  have e: "scan_right lineText character = character + length ?right"
    by (rule scan_right_takeWhile)
  have lenr: "character + length ?right \<le> length lineText"
    using length_takeWhile_le [of ?P "drop character lineText"] c by simp
  have revleft: "rev ?left = drop (character - length ?left) (take character lineText)"
    using rev_takeWhile_rev [of ?P "take character lineText"] c by (simp add: min_def)
  have "character - length ?left \<le> character + length ?right"
    "character - length ?left \<le> length lineText"
    "character + length ?right - (character - length ?left) = length ?left + length ?right"
    using lenl lenr c by arith+
  then have "substring lineText (character - length ?left) (character + length ?right)
      = take (length ?left + length ?right) (drop (character - length ?left) lineText)"
    using lenr by (simp only: substring_def Let_def min_absorb1 max_absorb2)
  also have "drop (character - length ?left) lineText
      = drop (character - length ?left) (take character lineText) @ drop character lineText"
    using lenl by (metis append_take_drop_id diff_le_self drop_append length_take min.absorb2 c
        diff_is_0_eq' drop0)
  also have "take (length ?left + length ?right)
        (drop (character - length ?left) (take character lineText) @ drop character lineText)
      = rev ?left @ ?right"
    using lenl c by (simp add: revleft takeWhile_eq_take [symmetric] min_def)
  finally have sub: "substring lineText (character - length ?left) (character + length ?right)
      = rev ?left @ ?right" .
  have "character - length ?left \<noteq> character + length ?right" using lenl by linarith
  moreover have "rev ?left @ ?right \<noteq> []" using lenl by auto
  ultimately show ?thesis
    using ne False start e sub
    by (simp add: getFullTextAtPosition_def extractReferenceSpan_spec_def Let_def)
qed

text \<open>
  With the cursor behind the first character of the line, the result is the run of
  allowed characters that ends before the character in front of the cursor, that
  character whatever it is, and the run of allowed characters that starts at the cursor.
\<close>

lemma getFullTextAtPosition_shape:
  assumes pos: "0 < character" and c: "character \<le> length lineText"
  shows "getFullTextAtPosition lineText character =
           Some (rev (takeWhile (\<lambda>ch. ch \<in> set allowed_chars) (rev (take (character - 1) lineText)))
                 @ lineText ! (character - 1)
                 # takeWhile (\<lambda>ch. ch \<in> set allowed_chars) (drop character lineText))"
proof -
  let ?P = "\<lambda>ch. ch \<in> set allowed_chars"
  let ?A = "takeWhile ?P (rev (take (character - 1) lineText))"
  let ?B = "takeWhile ?P (drop character lineText)"
  from pos c have ne: "lineText \<noteq> []" by auto
  from pos c have lt: "character - 1 < length lineText" by simp
  from pos have suc: "Suc (character - 1) = character" by simp
  have lenA: "length ?A \<le> character - 1"
    using length_takeWhile_le [of ?P "rev (take (character - 1) lineText)"] lt by simp
  have lenB: "character + length ?B \<le> length lineText"
    using length_takeWhile_le [of ?P "drop character lineText"] c by simp
  have start: "scan_left lineText (character - 1) = character - 1 - length ?A"
    using scan_left_takeWhile [of "character - 1" lineText] lt by simp
  have e: "scan_right lineText character = character + length ?B"
    by (rule scan_right_takeWhile)
  have revA: "rev ?A = drop (character - 1 - length ?A) (take (character - 1) lineText)"
    using rev_takeWhile_rev [of ?P "take (character - 1) lineText"] lt by (simp add: min_def)
  have split: "drop (character - 1 - length ?A) lineText
      = drop (character - 1 - length ?A) (take (character - 1) lineText)
        @ drop (character - 1) lineText"
  proof -
    define n where "n = character - 1 - length ?A"
    define m where "m = character - 1"
    have nm: "n \<le> m" "m \<le> length lineText" using lt by (simp_all add: n_def m_def)
    have "drop n (take m lineText @ drop m lineText)
        = drop n (take m lineText) @ drop (n - length (take m lineText)) (drop m lineText)"
      by (rule drop_append)
    moreover have "n - length (take m lineText) = 0" using nm by simp
    ultimately have "drop n lineText = drop n (take m lineText) @ drop m lineText"
      by (simp only: append_take_drop_id drop_0)
    then show ?thesis unfolding n_def m_def .
  qed
  have x: "drop (character - 1) lineText = lineText ! (character - 1) # drop character lineText"
    using Cons_nth_drop_Suc [OF lt] suc by simp
  have lenrev: "length (rev ?A) = length ?A" by simp
  have ar: "character - 1 - length ?A \<le> character + length ?B"
    "character - 1 - length ?A \<le> length lineText"
    "character + length ?B - (character - 1 - length ?A) = length ?A + Suc (length ?B)"
    using lenA lenB pos c by arith+
  then have "substring lineText (character - 1 - length ?A) (character + length ?B)
      = take (length ?A + Suc (length ?B)) (drop (character - 1 - length ?A) lineText)"
    using lenB by (simp only: substring_def Let_def min_absorb1 max_absorb2)
  also have "\<dots> = take (length ?A + Suc (length ?B))
                     (rev ?A @ lineText ! (character - 1) # drop character lineText)"
    by (simp only: split x revA [symmetric])
  also have "\<dots> = rev ?A @ lineText ! (character - 1) # take (length ?B) (drop character lineText)"
    by simp
  also have "take (length ?B) (drop character lineText) = ?B"
    by (rule takeWhile_eq_take [symmetric])
  finally have sub: "substring lineText (character - 1 - length ?A) (character + length ?B)
      = rev ?A @ lineText ! (character - 1) # ?B" .
  have neq: "character - 1 - length ?A \<noteq> character + length ?B" using pos by linarith
  show ?thesis
    using ne pos neq sub start e
    by (simp add: getFullTextAtPosition_def Let_def)
qed

lemma filter_takeWhile_Nil: "filter (\<lambda>x. \<not> P x) (takeWhile P xs) = []"
  by (induction xs) simp_all

lemma filter_rev_takeWhile_Nil: "filter (\<lambda>x. \<not> P x) (rev (takeWhile P xs)) = []"
  by (simp add: filter_takeWhile_Nil flip: rev_filter)

text \<open>So the text cut at a cursor holds at most one character that is not allowed.\<close>

lemma getFullTextAtPosition_one_outsider:
  assumes c: "character \<le> length lineText"
    and s: "getFullTextAtPosition lineText character = Some spanText"
  shows "length (filter (\<lambda>ch. ch \<notin> set allowed_chars) spanText) \<le> 1"
proof (cases "character = 0")
  case True
  then have "getFullTextAtPosition lineText character
      = extractReferenceSpan_spec lineText character"
    using c by (intro getFullTextAtPosition_maximal_run) simp_all
  with s True have "spanText = takeWhile (\<lambda>ch. ch \<in> set allowed_chars) lineText"
    by (simp add: extractReferenceSpan_spec_def Let_def split: if_splits)
  then show ?thesis
    using filter_takeWhile_Nil [of "\<lambda>ch. ch \<in> set allowed_chars" lineText] by simp
next
  case False
  then have "0 < character" by simp
  from getFullTextAtPosition_shape [OF this c] s
  have "spanText = rev (takeWhile (\<lambda>ch. ch \<in> set allowed_chars) (rev (take (character - 1) lineText)))
                 @ lineText ! (character - 1)
                 # takeWhile (\<lambda>ch. ch \<in> set allowed_chars) (drop character lineText)"
    by simp
  then show ?thesis
    using filter_rev_takeWhile_Nil [of "\<lambda>ch. ch \<in> set allowed_chars" "rev (take (character - 1) lineText)"]
      filter_takeWhile_Nil [of "\<lambda>ch. ch \<in> set allowed_chars" "drop character lineText"]
    by simp
qed

section \<open>Quote trimming\<close>

lemma clean_quotes_cases:
  "clean_quotes s =
     (if starts_with_quote s
      then (if 2 \<le> length s \<and> ends_with_quote s then butlast (tl s) else tl s)
      else (if ends_with_quote s then butlast s else s))"
proof (cases s)
  case Nil
  then show ?thesis by (simp add: clean_quotes_def starts_with_quote_def ends_with_quote_def)
next
  case (Cons c cs)
  show ?thesis
  proof (cases cs)
    case Nil
    with Cons show ?thesis
      by (simp add: clean_quotes_def starts_with_quote_def ends_with_quote_def)
  next
    case (Cons d ds)
    with \<open>s = c # cs\<close> show ?thesis
      by (simp add: clean_quotes_def starts_with_quote_def ends_with_quote_def)
  qed
qed

text \<open>
  C5, as the code has it. Before the prefix is matched, a quote character
  (\<^verbatim>\<open>'\<close> or \<^verbatim>\<open>"\<close>) is removed from the start of the text when there is one,
  and one from its end when there is one, each end on its own: whether the other end
  carries a quote, and which, plays no part. At most one character goes from each end.
  Where both ends carry the same quote, this is the trimming of the specification.
\<close>

theorem clean_quotes_each_end:
  "(\<not> starts_with_quote s \<and> \<not> ends_with_quote s \<longrightarrow> clean_quotes s = s)
   \<and> (starts_with_quote s \<and> ends_with_quote s \<and> 2 \<le> length s \<longrightarrow> clean_quotes s = butlast (tl s))
   \<and> (starts_with_quote s \<and> (length s = 1 \<or> \<not> ends_with_quote s) \<longrightarrow> clean_quotes s = tl s)
   \<and> (\<not> starts_with_quote s \<and> ends_with_quote s \<longrightarrow> clean_quotes s = butlast s)
   \<and> (2 \<le> length s \<and> is_quote (hd s) \<and> last s = hd s \<longrightarrow>
        clean_quotes s = trim_enclosing_quotes_spec s)"
  by (auto simp: clean_quotes_cases trim_enclosing_quotes_spec_def starts_with_quote_def
      ends_with_quote_def)

theorem clean_quotes_each_end_witness:
  "clean_quotes (CHR 0x27 # ''a.b'' @ [CHR 0x27]) = ''a.b''
   \<and> clean_quotes ''a.b'' = ''a.b''
   \<and> clean_quotes (CHR 0x22 # ''a.b'') = ''a.b''
   \<and> clean_quotes (''a.b'' @ [CHR 0x22]) = ''a.b''"
  using clean_quotes_each_end [of "CHR 0x27 # ''a.b'' @ [CHR 0x27]"]
    clean_quotes_each_end [of "''a.b''"]
    clean_quotes_each_end [of "CHR 0x22 # ''a.b''"]
    clean_quotes_each_end [of "''a.b'' @ [CHR 0x22]"]
  by (simp add: starts_with_quote_def ends_with_quote_def is_quote_def)

text \<open>
  C5 as the specification states it fails: a text quoted at one end only, and a text
  with different quotes at its two ends, are trimmed by the code.
\<close>

theorem clean_quotes_one_end_counterexample:
  "clean_quotes (CHR 0x27 # ''a.b'') = ''a.b''
   \<and> trim_enclosing_quotes_spec (CHR 0x27 # ''a.b'') = CHR 0x27 # ''a.b''
   \<and> clean_quotes (CHR 0x27 # ''a.b'' @ [CHR 0x22]) = ''a.b''
   \<and> trim_enclosing_quotes_spec (CHR 0x27 # ''a.b'' @ [CHR 0x22]) = CHR 0x27 # ''a.b'' @ [CHR 0x22]"
  by (simp add: clean_quotes_def trim_enclosing_quotes_spec_def is_quote_def)

section \<open>Best-key disambiguation\<close>

lemma defined_in_some_iff:
  "defined_in_some env trees c = list_ex (\<lambda>tree. getValueByKey env tree c \<noteq> JUndefined) trees"
  by (induction trees) auto

lemma first_candidate_find:
  "first_candidate env cands (map snd documentSet) = find (exists_in_some env documentSet) cands"
  by (induction cands) (auto simp: defined_in_some_iff exists_in_some_def)

lemma first_candidate_mem: "first_candidate env cands trees = Some k \<Longrightarrow> k \<in> set cands"
  by (induction cands) (auto split: if_splits)

text \<open>
  C10. A key returned by \<^verbatim>\<open>getBestKeyFromFullText\<close> is never the empty string: an
  empty stripped candidate is not tried, and an empty cleaned text returns
  \<^verbatim>\<open>null\<close> at once.
\<close>

theorem getBestKeyFromFullText_nonempty:
  assumes "getBestKeyFromFullText cfg env fullText allJson = Some key"
  shows "key \<noteq> []"
proof -
  let ?cleaned = "clean_quotes fullText"
  let ?c1 = "(case extractKeyFromFullText cfg ?cleaned of
                None \<Rightarrow> [] | Some stripped \<Rightarrow> if stripped \<noteq> [] then [stripped] else [])"
  let ?cands = "(if ?cleaned \<in> set ?c1 then ?c1 else ?c1 @ [?cleaned])"
  from assms have ne: "?cleaned \<noteq> []" and fc: "first_candidate env ?cands (map snd allJson) = Some key"
    by (auto simp: getBestKeyFromFullText_def Let_def split: if_splits)
  from fc have "key \<in> set ?cands" by (rule first_candidate_mem)
  moreover have "[] \<notin> set ?c1" by (auto split: option.splits)
  ultimately show ?thesis using ne by (auto split: if_splits)
qed

theorem getBestKeyFromFullText_nonempty_witness:
  "getBestKeyFromFullText defaultConfig object_prototype_env ''_translate.CONTROLL.buy''
     [(''en'', JObj [(''CONTROLL'', JObj [(''buy'', JStr ''Buy'')])])] = Some ''CONTROLL.buy''
   \<and> ''CONTROLL.buy'' \<noteq> []"
  using getBestKeyFromFullText_nonempty
    [of defaultConfig object_prototype_env "''_translate.CONTROLL.buy''"
        "[(''en'', JObj [(''CONTROLL'', JObj [(''buy'', JStr ''Buy'')])])]" "''CONTROLL.buy''"]
  by (simp add: getBestKeyFromFullText_def clean_quotes_def is_quote_def
      extractKeyFromFullText_def regex_test_def buildRegexFromVariables_def defaultConfig_def
      defaultMatchStrings_def getValueByKey_def)

lemma dedup_first_pair: "dedup_first [a, b] = (if a = b then [a] else [a, b])"
  by (simp add: dedup_first_def)

lemma dedup_first_single: "dedup_first [a] = [a]"
  by (simp add: dedup_first_def)

text \<open>
  C2, as the code has it. With the text cleaned of a leading and a trailing quote,
  candidate A is the key that \<^verbatim>\<open>extractKeyFromFullText\<close> yields, when it yields one
  that is not empty; candidate B is the cleaned text. An empty cleaned text gives
  \<^verbatim>\<open>null\<close>. Otherwise the result is the first candidate, A before B and without
  duplicates, whose lookup is defined in some tree of the document set, and
  \<^verbatim>\<open>null\<close> when there is none.
\<close>

theorem getBestKeyFromFullText_candidates:
  "getBestKeyFromFullText cfg env fullText allJson =
     (let trimmed = clean_quotes fullText;
          candidateA =
            (case extractKeyFromFullText cfg trimmed of
               None \<Rightarrow> []
             | Some k \<Rightarrow> if k = [] then [] else [k])
      in if trimmed = [] then None
         else find (exists_in_some env allJson) (dedup_first (candidateA @ [trimmed])))"
  by (auto simp: getBestKeyFromFullText_def Let_def first_candidate_find dedup_first_pair
      dedup_first_single clean_quotes_def split: option.splits)

theorem getBestKeyFromFullText_candidates_witness:
  "getBestKeyFromFullText defaultConfig object_prototype_env ''_translate.CONTROLL.buy''
     [(''vi'', JObj []), (''en'', JObj [(''CONTROLL'', JObj [(''buy'', JStr ''Buy'')])])]
     = Some ''CONTROLL.buy''"
  using getBestKeyFromFullText_candidates
    [of defaultConfig object_prototype_env "''_translate.CONTROLL.buy''"
        "[(''vi'', JObj []), (''en'', JObj [(''CONTROLL'', JObj [(''buy'', JStr ''Buy'')])])]"]
  by (simp add: clean_quotes_def is_quote_def exists_in_some_def dedup_first_def
      extractKeyFromFullText_def regex_test_def buildRegexFromVariables_def defaultConfig_def
      defaultMatchStrings_def getValueByKey_def object_prototype_env_def object_prototype_names_def)

text \<open>
  C2 as the specification states it fails where extraction succeeds with the empty key:
  for the text \<^verbatim>\<open>_translate\<close> and the tree
  \<^verbatim>\<open>{"": "x", "_translate": "y"}\<close> the empty candidate A exists in the tree and the
  procedure of the specification returns it; the code returns candidate B.
\<close>

theorem getBestKeyFromFullText_empty_candidate_counterexample:
  "getBestKeyFromFullText defaultConfig object_prototype_env ''_translate''
     [(''en'', JObj [([], JStr ''x''), (''_translate'', JStr ''y'')])] = Some ''_translate''
   \<and> resolveBestKey_spec defaultConfig object_prototype_env ''_translate''
     [(''en'', JObj [([], JStr ''x''), (''_translate'', JStr ''y'')])] = Some []"
  by (simp add: getBestKeyFromFullText_def resolveBestKey_spec_def clean_quotes_def is_quote_def
      exists_in_some_def dedup_first_def
      extractKeyFromFullText_def regex_test_def buildRegexFromVariables_def defaultConfig_def
      defaultMatchStrings_def getValueByKey_def)


section \<open>A literal key in a pipe expression\<close>






text \<open>
  The text that \<^verbatim>\<open>getBestKeyFromFullText\<close> receives is the text cut at the cursor.
  The whole line is never that text, at any cursor in any line: it holds more than one
  character that is not allowed. Given the whole line, the function removes the leading
  quote only and finds nothing.
\<close>

lemma whole_line_is_no_span:
  assumes "character \<le> length lineText"
  shows "getFullTextAtPosition lineText character
         \<noteq> Some (CHR 0x27 # ''CONTROLL.buy'' @ CHR 0x27 # '' | translate'')"
proof
  assume "getFullTextAtPosition lineText character
         = Some (CHR 0x27 # ''CONTROLL.buy'' @ CHR 0x27 # '' | translate'')"
  from getFullTextAtPosition_one_outsider [OF assms this]
  show False by (simp add: allowed_chars_def)
qed

lemma getBestKeyFromFullText_whole_line:
  "getBestKeyFromFullText defaultConfig object_prototype_env
     (CHR 0x27 # ''CONTROLL.buy'' @ CHR 0x27 # '' | translate'')
     [(''en'', JObj [(''CONTROLL'', JObj [(''buy'', JStr ''Buy'')])])] = None"
  by (simp add: getBestKeyFromFullText_def clean_quotes_def is_quote_def
      extractKeyFromFullText_def regex_test_def buildRegexFromVariables_def defaultConfig_def
      defaultMatchStrings_def getValueByKey_def object_prototype_env_def
      object_prototype_names_def)

section \<open>Completion\<close>

lemma dedup_acc_set_cong: "set s = set s' \<Longrightarrow> dedup_acc s xs = dedup_acc s' xs"
proof (induction xs arbitrary: s s')
  case Nil
  show ?case by simp
next
  case (Cons x xs)
  have "dedup_acc (x # s) xs = dedup_acc (x # s') xs"
    using Cons.prems by (intro Cons.IH) simp
  then show ?case using Cons.prems Cons.IH [of s s'] by simp
qed

lemma set_dedup_acc: "set (dedup_acc seen xs) = set xs - set seen"
  by (induction xs arbitrary: seen) auto

lemma distinct_dedup_acc: "distinct (dedup_acc seen xs)"
  by (induction xs arbitrary: seen) (auto simp: set_dedup_acc)

lemma dedup_acc_append:
  "dedup_acc seen (xs @ ys) = dedup_acc seen xs @ dedup_acc (seen @ xs) ys"
proof (induction xs arbitrary: seen)
  case Nil
  show ?case by simp
next
  case (Cons x xs)
  show ?case
  proof (cases "x \<in> set seen")
    case True
    then have "set (seen @ xs) = set (seen @ x # xs)" by auto
    then have "dedup_acc (seen @ xs) ys = dedup_acc (seen @ x # xs) ys"
      by (rule dedup_acc_set_cong)
    with True show ?thesis by (simp add: Cons.IH)
  next
    case False
    have "set ((x # seen) @ xs) = set (seen @ x # xs)" by auto
    then have "dedup_acc ((x # seen) @ xs) ys = dedup_acc (seen @ x # xs) ys"
      by (rule dedup_acc_set_cong)
    with False show ?thesis by (simp add: Cons.IH)
  qed
qed

lemma completion_inv_map_of:
  assumes "completion_inv st" "map_of (suggestionMap st) k = Some item"
  shows "label item = k \<and> detail item = k \<and> documentation item \<noteq> Some []"
proof -
  from assms(2) have "(k, item) \<in> set (suggestionMap st)" by (rule map_of_SomeD)
  with assms(1) show ?thesis by (auto simp: completion_inv_def list_all_iff)
qed

lemma completion_inv_keys:
  assumes "completion_inv st"
  shows "(k \<in> set (keySet st)) = (map_of (suggestionMap st) k \<noteq> None)"
proof -
  from assms have "set (keySet st) = fst ` set (suggestionMap st)"
    by (simp add: completion_inv_def flip: set_map)
  then show ?thesis by (simp add: map_of_eq_None_iff)
qed

lemma list_all_update:
  "P (k, v) \<Longrightarrow> list_all P al \<Longrightarrow> list_all P (AList.update k v al)"
  by (induction al) auto

lemma map_fst_update:
  "map fst (AList.update k v al) = (if k \<in> set (map fst al) then map fst al else map fst al @ [k])"
  by (induction al) auto

lemma register_key_inv: "completion_inv st \<Longrightarrow> completion_inv (register_key k st)"
  by (auto simp: register_key_def completion_inv_def map_fst_update list_all_update)

lemma register_key_keySet:
  "keySet (register_key k st) = (if k \<in> set (keySet st) then keySet st else keySet st @ [k])"
  by (simp add: register_key_def)

lemma register_key_doc: "completion_inv st \<Longrightarrow> doc_text (register_key k st) k' = doc_text st k'"
  using completion_inv_keys [of st k]
  by (auto simp: register_key_def doc_text_def update_conv' split: option.splits)

lemma register_key_present:
  "completion_inv st \<Longrightarrow> map_of (suggestionMap (register_key k st)) k \<noteq> None"
  using completion_inv_keys [of st k]
  by (auto simp: register_key_def update_conv')

lemma doc_line_not_Nil: "doc_line lang v \<noteq> []"
  by (simp add: doc_line_def)

lemma append_doc_inv:
  assumes "completion_inv st" "map_of (suggestionMap st) k = Some item" "line \<noteq> []"
  shows "completion_inv (st\<lparr>suggestionMap :=
            AList.update k (item\<lparr>documentation := Some (d @ line)\<rparr>) (suggestionMap st)\<rparr>)"
proof -
  let ?item = "item\<lparr>documentation := Some (d @ line)\<rparr>"
  let ?P = "\<lambda>(k, item). label item = k \<and> detail item = k \<and> documentation item \<noteq> Some []"
  from assms(1,2) have lab: "label item = k" "detail item = k"
    by (auto dest: completion_inv_map_of)
  have mem: "k \<in> set (map fst (suggestionMap st))"
  proof -
    from assms(2) have "(k, item) \<in> set (suggestionMap st)" by (rule map_of_SomeD)
    then have "fst (k, item) \<in> fst ` set (suggestionMap st)" by (rule imageI)
    then show ?thesis by simp
  qed
  have keys: "map fst (AList.update k ?item (suggestionMap st)) = map fst (suggestionMap st)"
    using mem by (simp add: map_fst_update)
  have "?P (k, ?item)" using lab assms(3) by simp
  moreover have "list_all ?P (suggestionMap st)" using assms(1) by (simp add: completion_inv_def)
  ultimately have "list_all ?P (AList.update k ?item (suggestionMap st))"
    by (rule list_all_update)
  with keys assms(1) show ?thesis by (simp add: completion_inv_def)
qed

lemma child_step_inv:
  assumes "completion_inv st"
  shows "completion_inv (child_step env keyPrefix lang jsonData k st)"
proof -
  note inv1 = register_key_inv [OF assms, of k]
  show ?thesis
  proof (cases "getValueByKey env jsonData (full_key keyPrefix k)")
    case (JStr v)
    show ?thesis
    proof (cases "map_of (suggestionMap (register_key k st)) k")
      case None
      with JStr inv1 show ?thesis by (simp add: child_step_def Let_def)
    next
      case (Some item)
      with JStr inv1 append_doc_inv [OF inv1 Some doc_line_not_Nil]
      show ?thesis by (simp add: child_step_def Let_def)
    qed
  qed (simp_all add: child_step_def Let_def inv1)
qed

lemma child_step_keySet:
  "completion_inv st \<Longrightarrow>
     keySet (child_step env keyPrefix lang jsonData k st) =
       (if k \<in> set (keySet st) then keySet st else keySet st @ [k])"
  by (simp add: child_step_def Let_def register_key_keySet split: jsval.splits option.splits)

lemma child_step_doc:
  assumes "completion_inv st"
  shows "doc_text (child_step env keyPrefix lang jsonData k st) k' =
           doc_text st k' @ (if k' = k then label_line env keyPrefix k (lang, jsonData) else [])"
proof -
  note d1 = register_key_doc [OF assms, of k]
  note p1 = register_key_present [OF assms, of k]
  show ?thesis
  proof (cases "getValueByKey env jsonData (full_key keyPrefix k)")
    case (JStr v)
    show ?thesis
    proof (cases "v = []")
      case True
      with JStr show ?thesis by (simp add: child_step_def Let_def label_line_def d1)
    next
      case False
      from p1 obtain item where item: "map_of (suggestionMap (register_key k st)) k = Some item"
        by auto
      have "doc_text (register_key k st) k = (case documentation item of None \<Rightarrow> [] | Some d \<Rightarrow> d)"
        using item by (simp add: doc_text_def)
      then show ?thesis using JStr False item d1 [of k] d1 [of k']
        by (auto simp: child_step_def Let_def label_line_def doc_text_def update_conv'
            split: option.splits)
    qed
  qed (simp_all add: child_step_def Let_def label_line_def d1)
qed


lemma child_loop:
  assumes "completion_inv st"
  shows "completion_inv (foldl (\<lambda>s c. child_step env keyPrefix (fst entry) (snd entry) c s) st cs)
         \<and> keySet (foldl (\<lambda>s c. child_step env keyPrefix (fst entry) (snd entry) c s) st cs)
             = keySet st @ dedup_acc (keySet st) cs
         \<and> (\<forall>k'. doc_text (foldl (\<lambda>s c. child_step env keyPrefix (fst entry) (snd entry) c s) st cs) k'
                 = doc_text st k'
                   @ concat (map (\<lambda>c. if k' = c then label_line env keyPrefix c entry else []) cs))"
  using assms
proof (induction cs arbitrary: st)
  case Nil
  then show ?case by simp
next
  case (Cons c cs)
  let ?st = "child_step env keyPrefix (fst entry) (snd entry) c st"
  have inv: "completion_inv ?st" using Cons.prems by (rule child_step_inv)
  note IH = Cons.IH [OF inv]
  have keys: "keySet ?st = (if c \<in> set (keySet st) then keySet st else keySet st @ [c])"
    using Cons.prems by (rule child_step_keySet)
  have "dedup_acc (keySet st @ [c]) cs = dedup_acc (c # keySet st) cs"
    by (rule dedup_acc_set_cong) simp
  then have k: "keySet ?st @ dedup_acc (keySet ?st) cs = keySet st @ dedup_acc (keySet st) (c # cs)"
    using keys by simp
  have same: "label_line env keyPrefix c (fst entry, snd entry) = label_line env keyPrefix c entry"
    by (simp add: label_line_def)
  have d: "doc_text ?st k' @ concat (map (\<lambda>c. if k' = c then label_line env keyPrefix c entry else []) cs)
           = doc_text st k' @ concat (map (\<lambda>c. if k' = c then label_line env keyPrefix c entry else []) (c # cs))"
    for k'
    using child_step_doc [OF Cons.prems, of env keyPrefix "fst entry" "snd entry" c k'] same
    by simp
  show ?case using IH k d by simp
qed

lemma object_keys_not_object: "\<not> is_object v \<Longrightarrow> object_keys v = []"
  by (cases v) simp_all

lemma lang_step_fold:
  "lang_step env keyPrefix st entry =
     foldl (\<lambda>s c. child_step env keyPrefix (fst entry) (snd entry) c s) st
       (child_keys env keyPrefix entry)"
  by (simp add: lang_step_def child_keys_def node_at_def Let_def object_keys_not_object)

lemma lang_loop:
  assumes "completion_inv st"
  shows "completion_inv (foldl (lang_step env keyPrefix) st js)
         \<and> keySet (foldl (lang_step env keyPrefix) st js)
             = keySet st @ dedup_acc (keySet st) (concat (map (child_keys env keyPrefix) js))
         \<and> (\<forall>k'. doc_text (foldl (lang_step env keyPrefix) st js) k'
                 = doc_text st k'
                   @ concat (map (\<lambda>entry. concat (map (\<lambda>c. if k' = c
                                                       then label_line env keyPrefix c entry else [])
                                           (child_keys env keyPrefix entry))) js))"
  using assms
proof (induction js arbitrary: st)
  case Nil
  then show ?case by simp
next
  case (Cons entry js)
  let ?cs = "child_keys env keyPrefix entry"
  let ?st = "lang_step env keyPrefix st entry"
  note cl = child_loop [OF Cons.prems, of env keyPrefix entry ?cs, folded lang_step_fold]
  from cl have inv: "completion_inv ?st" by simp
  from cl have keys: "keySet ?st = keySet st @ dedup_acc (keySet st) ?cs" by simp
  from cl have doc: "doc_text ?st k' = doc_text st k'
      @ concat (map (\<lambda>c. if k' = c then label_line env keyPrefix c entry else []) ?cs)" for k'
    by simp
  note IH = Cons.IH [OF inv]
  have "set (keySet ?st) = set (keySet st @ ?cs)"
    by (auto simp: keys set_dedup_acc)
  then have "dedup_acc (keySet ?st) ys = dedup_acc (keySet st @ ?cs) ys" for ys
    by (rule dedup_acc_set_cong)
  then have k: "keySet ?st @ dedup_acc (keySet ?st) (concat (map (child_keys env keyPrefix) js))
      = keySet st @ dedup_acc (keySet st) (concat (map (child_keys env keyPrefix) (entry # js)))"
    by (simp add: keys dedup_acc_append)
  show ?case using IH k doc by simp
qed

lemma concat_if_distinct:
  "distinct cs \<Longrightarrow> concat (map (\<lambda>c. if k = c then f c else []) cs) = (if k \<in> set cs then f k else [])"
  by (induction cs) auto


lemma map_label_snd:
  "list_all (\<lambda>(k, item). label item = k \<and> detail item = k \<and> documentation item \<noteq> Some []) sm
   \<Longrightarrow> map (label \<circ> snd) sm = map fst sm"
  by (induction sm) auto

lemma empty_state_inv: "completion_inv \<lparr>keySet = [], suggestionMap = []\<rparr>"
  by (simp add: completion_inv_def)

lemma completion_items_labels:
  "map label (completion_items env keyPrefix allJson)
     = dedup_first (concat (map (child_keys env keyPrefix) allJson))"
proof -
  let ?st = "foldl (lang_step env keyPrefix) \<lparr>keySet = [], suggestionMap = []\<rparr> allJson"
  note ll = lang_loop [OF empty_state_inv, of env keyPrefix allJson]
  from ll have inv: "completion_inv ?st" by simp
  from ll have "keySet ?st = dedup_first (concat (map (child_keys env keyPrefix) allJson))"
    by (simp add: dedup_first_def)
  moreover from inv have "map (label \<circ> snd) (suggestionMap ?st) = keySet ?st"
    by (simp add: completion_inv_def map_label_snd)
  ultimately show ?thesis by (simp add: completion_items_def)
qed

lemma completion_items_documentation:
  assumes dist: "\<forall>entry\<in>set allJson. distinct (child_keys env keyPrefix entry)"
    and item: "item \<in> set (completion_items env keyPrefix allJson)"
  shows "detail item = label item
         \<and> documentation item = documentation_for env keyPrefix allJson (label item)"
proof -
  let ?st = "foldl (lang_step env keyPrefix) \<lparr>keySet = [], suggestionMap = []\<rparr> allJson"
  note ll = lang_loop [OF empty_state_inv, of env keyPrefix allJson]
  from ll have inv: "completion_inv ?st" by simp
  from item obtain k where mem: "(k, item) \<in> set (suggestionMap ?st)"
    by (auto simp: completion_items_def)
  from inv have "distinct (map fst (suggestionMap ?st))" by (simp add: completion_inv_def)
  with mem have lookup: "map_of (suggestionMap ?st) k = Some item" by simp
  from completion_inv_map_of [OF inv lookup]
  have lab: "label item = k" "detail item = k" and ne: "documentation item \<noteq> Some []" by simp_all
  have "doc_text ?st k = (case documentation item of None \<Rightarrow> [] | Some d \<Rightarrow> d)"
    using lookup by (simp add: doc_text_def)
  moreover from ll have "doc_text ?st k =
      concat (map (\<lambda>entry. concat (map (\<lambda>c. if k = c then label_line env keyPrefix c entry else [])
                                       (child_keys env keyPrefix entry))) allJson)"
    by (simp add: doc_text_def)
  moreover have "map (\<lambda>entry. concat (map (\<lambda>c. if k = c then label_line env keyPrefix c entry else [])
                                       (child_keys env keyPrefix entry))) allJson
      = map (\<lambda>entry. if k \<in> set (child_keys env keyPrefix entry)
                       then label_line env keyPrefix k entry else []) allJson"
    using dist by (intro map_cong refl) (simp add: concat_if_distinct)
  ultimately have "(case documentation item of None \<Rightarrow> [] | Some d \<Rightarrow> d)
      = concat (map (\<lambda>entry. if k \<in> set (child_keys env keyPrefix entry)
                       then label_line env keyPrefix k entry else []) allJson)"
    by simp
  then have "documentation item = documentation_for env keyPrefix allJson k"
    using ne by (cases "documentation item") (auto simp: documentation_for_def Let_def)
  with lab show ?thesis by simp
qed

text \<open>
  C7, as the code has it. For every key prefix and every document set whose nodes list
  each child key once (as every JavaScript object does), the suggestions are the child
  keys of the labels' nodes, each once, in the order in which they are first seen across
  the labels. The documentation of a suggestion is made of one line
  \<^verbatim>\<open>- **label**: value\<close> for each label, in order, that lists the child and in
  whose tree the lookup of the child's full key is a string that is not empty; a label
  where that lookup is a container, a number, a boolean, \<^verbatim>\<open>null\<close> or the empty
  string adds no line, and with no line at all the documentation is absent. For the key
  prefix \<^verbatim>\<open>CONTROLL\<close> and the two trees of the specification's example the
  suggestions are \<^verbatim>\<open>buy\<close>, documented by the lines of \<^verbatim>\<open>en\<close> and
  \<^verbatim>\<open>vi\<close>, and \<^verbatim>\<open>sell\<close>, documented by the line of \<^verbatim>\<open>en\<close>.
\<close>

theorem completion_items_aggregate:
  assumes "\<forall>entry\<in>set allJson. distinct (child_keys env keyPrefix entry)"
  shows "map label (completion_items env keyPrefix allJson)
           = dedup_first (concat (map (child_keys env keyPrefix) allJson))
         \<and> distinct (map label (completion_items env keyPrefix allJson))
         \<and> (\<forall>item\<in>set (completion_items env keyPrefix allJson).
              detail item = label item
              \<and> documentation item = documentation_for env keyPrefix allJson (label item))
         \<and> completion_items env ''CONTROLL''
              [(''en'', JObj [(''CONTROLL'', JObj [(''buy'', JStr ''Buy''), (''sell'', JStr ''Sell'')])]),
               (''vi'', JObj [(''CONTROLL'', JObj [(''buy'', JStr ''Mua'')])])]
             = [\<lparr>label = ''buy'', kind = Property, detail = ''buy'',
                  documentation = Some (doc_line ''en'' ''Buy'' @ doc_line ''vi'' ''Mua'')\<rparr>,
                \<lparr>label = ''sell'', kind = Property, detail = ''sell'',
                  documentation = Some (doc_line ''en'' ''Sell'')\<rparr>]
         \<and> doc_line ''en'' ''Buy'' = ''- **en**: Buy'' @ [CHR 0x0A]"
proof -
  have ex: "completion_items env ''CONTROLL''
              [(''en'', JObj [(''CONTROLL'', JObj [(''buy'', JStr ''Buy''), (''sell'', JStr ''Sell'')])]),
               (''vi'', JObj [(''CONTROLL'', JObj [(''buy'', JStr ''Mua'')])])]
             = [\<lparr>label = ''buy'', kind = Property, detail = ''buy'',
                  documentation = Some (doc_line ''en'' ''Buy'' @ doc_line ''vi'' ''Mua'')\<rparr>,
                \<lparr>label = ''sell'', kind = Property, detail = ''sell'',
                  documentation = Some (doc_line ''en'' ''Sell'')\<rparr>]"
    by (simp add: completion_items_def lang_step_def child_step_def register_key_def
        getValueByKey_def full_key_def Let_def)
  have "distinct (map label (completion_items env keyPrefix allJson))"
    by (simp add: completion_items_labels dedup_first_def distinct_dedup_acc)
  then show ?thesis
    using completion_items_labels [of env keyPrefix allJson]
      completion_items_documentation [OF assms] ex
    by (simp add: doc_line_def)
qed

theorem completion_items_aggregate_witness:
  "map label (completion_items object_prototype_env []
     [(''en'', JObj [(''A'', JStr ''x''), (''B'', JObj [])]), (''vi'', JObj [(''B'', JStr ''y''), (''A'', JStr ''z'')])])
   = [''A'', ''B'']"
  using completion_items_aggregate [of
     "[(''en'', JObj [(''A'', JStr ''x''), (''B'', JObj [])]), (''vi'', JObj [(''B'', JStr ''y''), (''A'', JStr ''z'')])]"
     object_prototype_env "[]"]
  by (simp add: child_keys_def node_at_def dedup_first_def)

text \<open>
  C7 as the specification states it fails for a scalar leaf that is not a string: the
  child \<^verbatim>\<open>n\<close> of \<^verbatim>\<open>{"A": {"n": 5}}\<close> resolves to the number 5 for the
  label \<^verbatim>\<open>en\<close>, and its suggestion carries no documentation line.
\<close>

theorem completion_items_number_leaf_counterexample:
  "completion_items object_prototype_env ''A'' [(''en'', JObj [(''A'', JObj [(''n'', JNum 5)])])]
     = [\<lparr>label = ''n'', kind = Property, detail = ''n'', documentation = None\<rparr>]
   \<and> getValueByKey object_prototype_env (JObj [(''A'', JObj [(''n'', JNum 5)])]) ''A.n'' = JNum 5
   \<and> is_scalar_leaf (JNum 5)"
  by (simp add: completion_items_def lang_step_def child_step_def register_key_def
      getValueByKey_def full_key_def Let_def)

text \<open>
  The provider on a line: with the cursor behind \<^verbatim>\<open>_translate.CONTROLL\<close> the key
  prefix is \<^verbatim>\<open>CONTROLL\<close>. With the cursor behind a dot that ends the line, the
  text at the cursor keeps that dot and the key prefix is \<^verbatim>\<open>CONTROLL.\<close>.
\<close>

lemma provideCompletionItems_example:
  "provideCompletionItems defaultConfig env
     [(''en'', JObj [(''CONTROLL'', JObj [(''buy'', JStr ''Buy''), (''sell'', JStr ''Sell'')])]),
      (''vi'', JObj [(''CONTROLL'', JObj [(''buy'', JStr ''Mua'')])])]
     ''typescript'' ''_translate.CONTROLL'' 19
   = Some [\<lparr>label = ''buy'', kind = Property, detail = ''buy'',
             documentation = Some (doc_line ''en'' ''Buy'' @ doc_line ''vi'' ''Mua'')\<rparr>,
           \<lparr>label = ''sell'', kind = Property, detail = ''sell'',
             documentation = Some (doc_line ''en'' ''Sell'')\<rparr>]"
proof -
  have "getFullTextAtPosition ''_translate.CONTROLL'' 18 = Some ''_translate.CONTROLL''"
    by code_simp
  moreover have "extractKeyFromFullText defaultConfig ''_translate.CONTROLL'' = Some ''CONTROLL''"
    by (simp add: extractKeyFromFullText_def regex_test_def buildRegexFromVariables_def
        defaultConfig_def defaultMatchStrings_def)
  moreover have "''typescript'' \<in> set (workInFiles defaultConfig)"
    by (simp add: defaultConfig_def defaultLanguages_def)
  ultimately show ?thesis
    using completion_items_aggregate [of "[]" env "[]"]
    by (simp add: provideCompletionItems_def)
qed

lemma provideCompletionItems_trailing_dot:
  "provideCompletionItems defaultConfig env
     [(''en'', JObj [(''CONTROLL'', JObj [(''buy'', JStr ''Buy''), (''sell'', JStr ''Sell'')])]),
      (''vi'', JObj [(''CONTROLL'', JObj [(''buy'', JStr ''Mua'')])])]
     ''typescript'' ''_translate.CONTROLL.'' 20
   = Some (completion_items env ''CONTROLL.''
     [(''en'', JObj [(''CONTROLL'', JObj [(''buy'', JStr ''Buy''), (''sell'', JStr ''Sell'')])]),
      (''vi'', JObj [(''CONTROLL'', JObj [(''buy'', JStr ''Mua'')])])])"
proof -
  have "getFullTextAtPosition ''_translate.CONTROLL.'' 19 = Some ''_translate.CONTROLL.''"
    by code_simp
  moreover have "extractKeyFromFullText defaultConfig ''_translate.CONTROLL.'' = Some ''CONTROLL.''"
    by (simp add: extractKeyFromFullText_def regex_test_def buildRegexFromVariables_def
        defaultConfig_def defaultMatchStrings_def)
  moreover have "''typescript'' \<in> set (workInFiles defaultConfig)"
    by (simp add: defaultConfig_def defaultLanguages_def)
  ultimately show ?thesis
    by (simp add: provideCompletionItems_def)
qed

section \<open>The document store\<close>


lemma js_insert_set: "set (js_insert k v r) = insert (k, v) (set r)"
  by (induction r) (auto split: if_splits)

lemma js_insert_keys: "set (map fst (js_insert k v r)) = insert k (set (map fst r))"
  by (simp add: js_insert_set)

lemma js_insert_map_of:
  "k \<notin> set (map fst r) \<Longrightarrow> map_of (js_insert k v r) = (map_of r)(k \<mapsto> v)"
proof (induction r)
  case Nil
  show ?case by simp
next
  case (Cons e r)
  obtain k' v' where e: "e = (k', v')" by (cases e)
  with Cons.prems have ne: "k \<noteq> k'" and notin: "k \<notin> set (map fst r)" by auto
  have tw: "(map_of r)(k \<mapsto> v, k' \<mapsto> v') = (map_of r)(k' \<mapsto> v', k \<mapsto> v)"
    using ne by (rule fun_upd_twist)
  show ?case
  proof (cases "stays_before k' k")
    case True
    then show ?thesis using Cons.IH [OF notin] e ne by (auto simp: fun_eq_iff)
  next
    case False
    then show ?thesis using e ne by (auto simp: fun_eq_iff)
  qed
qed

lemma js_insert_distinct:
  "k \<notin> set (map fst r) \<Longrightarrow> distinct (map fst r) \<Longrightarrow> distinct (map fst (js_insert k v r))"
proof (induction r)
  case Nil
  show ?case by simp
next
  case (Cons e r)
  obtain k' v' where e: "e = (k', v')" by (cases e)
  with Cons.prems have ne: "k \<noteq> k'" and notin: "k \<notin> set (map fst r)"
    and k': "k' \<notin> set (map fst r)" and d: "distinct (map fst r)" by auto
  have "k' \<notin> set (map fst (js_insert k v r))"
    using ne k' by (simp add: js_insert_set)
  then show ?case using Cons.IH [OF notin d] e ne notin k' d by simp
qed

lemma js_set_keys: "set (map fst (js_set k v r)) = insert k (set (map fst r))"
proof (cases "k \<in> set (map fst r)")
  case True
  then show ?thesis using AList.dom_update [of k v r] by (simp add: js_set_def)
next
  case False
  then show ?thesis by (simp add: js_set_def js_insert_set)
qed

lemma js_set_map_of: "map_of (js_set k v r) = (map_of r)(k \<mapsto> v)"
  by (simp add: js_set_def js_insert_map_of update_conv')

lemma js_set_distinct: "distinct (map fst r) \<Longrightarrow> distinct (map fst (js_set k v r))"
  by (simp add: js_set_def js_insert_distinct distinct_update)

lemma js_set_list_all:
  "P (k, v) \<Longrightarrow> list_all P r \<Longrightarrow> list_all P (js_set k v r)"
proof -
  have ins: "P (k, v) \<Longrightarrow> list_all P r \<Longrightarrow> list_all P (js_insert k v r)" for r
    by (induction r) (auto split: if_splits)
  have upd: "P (k, v) \<Longrightarrow> list_all P r \<Longrightarrow> list_all P (AList.update k v r)" for r
    by (induction r) auto
  show "P (k, v) \<Longrightarrow> list_all P r \<Longrightarrow> list_all P (js_set k v r)"
    using ins upd by (simp add: js_set_def)
qed

lemma cache_assign_keys:
  "set (map fst (cache_assign l v c)) =
     (if l = ''__proto__'' then set (map fst c) else insert l (set (map fst c)))"
  using js_set_keys [of l v c] by (simp add: cache_assign_def)

lemma cache_assign_map_of:
  "map_of (cache_assign l v c) = (if l = ''__proto__'' then map_of c else (map_of c)(l \<mapsto> v))"
  by (simp add: cache_assign_def js_set_map_of)

lemma cache_assign_distinct:
  "distinct (map fst c) \<Longrightarrow> distinct (map fst (cache_assign l v c))"
  by (simp add: cache_assign_def js_set_distinct)

lemma loadFile_cache:
  "jsonCache (loadFile np rd rel st) =
     cache_assign (label_of np rel) (loaded_tree np rd rel) (jsonCache st)"
  by (simp add: loadFile_def label_of_def loaded_tree_def Let_def split: sum.splits)

lemma loadFile_others:
  "jsonWatchers (loadFile np rd rel st) = jsonWatchers st"
  "jsonPathLabels (loadFile np rd rel st) = jsonPathLabels st"
  by (simp_all add: loadFile_def Let_def split: sum.splits)


lemma watcher_setup_keys:
  "set (map fst (if map_of w p = None then js_set p rel w else w)) = insert p (set (map fst w))"
proof (cases "map_of w p")
  case None
  then show ?thesis using js_set_keys [of p rel w] by simp
next
  case (Some a)
  then have "(p, a) \<in> set w" by (rule map_of_SomeD)
  then have "fst (p, a) \<in> fst ` set w" by (rule imageI)
  then have "p \<in> set (map fst w)" by simp
  with Some show ?thesis by auto
qed

lemma track_step_eq:
  "track_step np rd rel (nfp, nl, st) =
     (List.insert (path_resolve np rel) nfp,
      js_set (path_resolve np rel) (path_basename np (path_resolve np rel)) nl,
      (loadFile np rd rel st)\<lparr>jsonWatchers :=
         (if map_of (jsonWatchers st) (path_resolve np rel) = None
          then js_set (path_resolve np rel) rel (jsonWatchers st) else jsonWatchers st)\<rparr>)"
  by (simp add: track_step_def Let_def loadFile_others)

text \<open>What the first loop leaves, component by component.\<close>

lemma track_paths_newFullPaths:
  "track_paths np rd rels (nfp, nl, st) = (nfp', nl', st') \<Longrightarrow>
     set nfp' = set nfp \<union> path_resolve np ` set rels"
proof (induction rels arbitrary: nfp nl st)
  case Nil
  then show ?case by simp
next
  case (Cons rel rels)
  from Cons.prems Cons.IH show ?case by (simp add: track_step_eq)
qed

lemma track_paths_pathLabels:
  "track_paths np rd rels (nfp, nl, st) = (nfp', nl', st') \<Longrightarrow>
     jsonPathLabels st' = jsonPathLabels st"
proof (induction rels arbitrary: nfp nl st)
  case Nil
  then show ?case by simp
next
  case (Cons rel rels)
  from Cons.prems have "jsonPathLabels st' = jsonPathLabels
     ((loadFile np rd rel st)\<lparr>jsonWatchers :=
         (if map_of (jsonWatchers st) (path_resolve np rel) = None
          then js_set (path_resolve np rel) rel (jsonWatchers st) else jsonWatchers st)\<rparr>)"
    by (simp add: track_step_eq Cons.IH)
  then show ?case by (simp add: loadFile_others)
qed

lemma track_paths_newLabels:
  "track_paths np rd rels (nfp, nl, st) = (nfp', nl', st') \<Longrightarrow>
     set (map fst nl') = set (map fst nl) \<union> path_resolve np ` set rels
     \<and> (distinct (map fst nl) \<longrightarrow> distinct (map fst nl'))
     \<and> (list_all (\<lambda>(p, l). l = path_basename np p) nl
          \<longrightarrow> list_all (\<lambda>(p, l). l = path_basename np p) nl')"
proof (induction rels arbitrary: nfp nl st)
  case Nil
  then show ?case by simp
next
  case (Cons rel rels)
  let ?p = "path_resolve np rel"
  let ?nl = "js_set ?p (path_basename np ?p) nl"
  from Cons.prems obtain nfp1 st1 where
    rest: "track_paths np rd rels (nfp1, ?nl, st1) = (nfp', nl', st')"
    by (simp add: track_step_eq)
  note IH = Cons.IH [OF rest]
  have k: "set (map fst ?nl) = insert ?p (set (map fst nl))" by (rule js_set_keys)
  have d: "distinct (map fst nl) \<Longrightarrow> distinct (map fst ?nl)" by (rule js_set_distinct)
  have a: "list_all (\<lambda>(p, l). l = path_basename np p) nl
           \<Longrightarrow> list_all (\<lambda>(p, l). l = path_basename np p) ?nl"
    by (rule js_set_list_all) simp_all
  from IH k have "set (map fst nl') = set (map fst nl) \<union> path_resolve np ` set (rel # rels)"
    by simp
  moreover from IH d have "distinct (map fst nl) \<longrightarrow> distinct (map fst nl')" by blast
  moreover from IH a have "list_all (\<lambda>(p, l). l = path_basename np p) nl
          \<longrightarrow> list_all (\<lambda>(p, l). l = path_basename np p) nl'" by blast
  ultimately show ?case by blast
qed

lemma track_paths_watchers:
  "track_paths np rd rels (nfp, nl, st) = (nfp', nl', st') \<Longrightarrow>
     set (map fst (jsonWatchers st')) = set (map fst (jsonWatchers st)) \<union> path_resolve np ` set rels
     \<and> (distinct (map fst (jsonWatchers st)) \<longrightarrow> distinct (map fst (jsonWatchers st')))
     \<and> (list_all (\<lambda>(p, rel). path_resolve np rel = p) (jsonWatchers st)
          \<longrightarrow> list_all (\<lambda>(p, rel). path_resolve np rel = p) (jsonWatchers st'))"
proof (induction rels arbitrary: nfp nl st)
  case Nil
  then show ?case by simp
next
  case (Cons rel rels)
  let ?p = "path_resolve np rel"
  let ?w = "if map_of (jsonWatchers st) ?p = None
            then js_set ?p rel (jsonWatchers st) else jsonWatchers st"
  let ?st = "(loadFile np rd rel st)\<lparr>jsonWatchers := ?w\<rparr>"
  from Cons.prems obtain nfp1 nl1 where
    rest: "track_paths np rd rels (nfp1, nl1, ?st) = (nfp', nl', st')"
    by (simp add: track_step_eq)
  note IH = Cons.IH [OF rest]
  have k: "set (map fst ?w) = insert ?p (set (map fst (jsonWatchers st)))"
    by (rule watcher_setup_keys)
  have d: "distinct (map fst (jsonWatchers st)) \<Longrightarrow> distinct (map fst ?w)"
    by (simp add: js_set_distinct)
  have a: "list_all (\<lambda>(p, rel). path_resolve np rel = p) (jsonWatchers st)
           \<Longrightarrow> list_all (\<lambda>(p, rel). path_resolve np rel = p) ?w"
    by (simp add: js_set_list_all)
  have w: "jsonWatchers ?st = ?w" by simp
  from IH k have "set (map fst (jsonWatchers st'))
      = set (map fst (jsonWatchers st)) \<union> path_resolve np ` set (rel # rels)"
    unfolding w by simp
  moreover from IH d have "distinct (map fst (jsonWatchers st))
      \<longrightarrow> distinct (map fst (jsonWatchers st'))"
    unfolding w by blast
  moreover from IH a have "list_all (\<lambda>(p, rel). path_resolve np rel = p) (jsonWatchers st)
          \<longrightarrow> list_all (\<lambda>(p, rel). path_resolve np rel = p) (jsonWatchers st')"
    unfolding w by blast
  ultimately show ?case by blast
qed

lemma track_paths_cache:
  "track_paths np rd rels (nfp, nl, st) = (nfp', nl', st') \<Longrightarrow>
     set (map fst (jsonCache st'))
       = set (map fst (jsonCache st)) \<union> (label_of np ` set rels - {''__proto__''})
     \<and> (distinct (map fst (jsonCache st)) \<longrightarrow> distinct (map fst (jsonCache st')))
     \<and> (\<forall>l. l \<notin> label_of np ` set rels \<longrightarrow> map_of (jsonCache st') l = map_of (jsonCache st) l)"
proof (induction rels arbitrary: nfp nl st)
  case Nil
  then show ?case by simp
next
  case (Cons rel rels)
  let ?c = "cache_assign (label_of np rel) (loaded_tree np rd rel) (jsonCache st)"
  from Cons.prems obtain nfp1 nl1 st1 where
    rest: "track_paths np rd rels (nfp1, nl1, st1) = (nfp', nl', st')"
    and c1: "jsonCache st1 = ?c"
    by (simp add: track_step_eq loadFile_cache)
  note IH = Cons.IH [OF rest]
  have k: "set (map fst ?c) = (if label_of np rel = ''__proto__'' then set (map fst (jsonCache st))
                               else insert (label_of np rel) (set (map fst (jsonCache st))))"
    by (rule cache_assign_keys)
  have d: "distinct (map fst (jsonCache st)) \<Longrightarrow> distinct (map fst ?c)"
    by (rule cache_assign_distinct)
  have m: "l \<noteq> label_of np rel \<Longrightarrow> map_of ?c l = map_of (jsonCache st) l" for l
    by (simp add: cache_assign_map_of)
  from IH k have "set (map fst (jsonCache st'))
       = set (map fst (jsonCache st)) \<union> (label_of np ` set (rel # rels) - {''__proto__''})"
    unfolding c1 by auto
  moreover from IH d have "distinct (map fst (jsonCache st)) \<longrightarrow> distinct (map fst (jsonCache st'))"
    unfolding c1 by blast
  moreover have "map_of (jsonCache st') l = map_of (jsonCache st) l"
    if "l \<notin> label_of np ` set (rel # rels)" for l
  proof -
    from that have "l \<notin> label_of np ` set rels" "l \<noteq> label_of np rel" by auto
    with IH m show ?thesis unfolding c1 by simp
  qed
  ultimately show ?case by blast
qed

lemma labels_unique_resolve:
  assumes "labels_unique np U" "p \<in> set U" "q \<in> set U" "label_of np p = label_of np q"
  shows "path_resolve np p = path_resolve np q"
proof -
  from assms(1) have "\<forall>p\<in>set U. \<forall>q\<in>set U.
      label_of np p = label_of np q \<longrightarrow> path_resolve np p = path_resolve np q"
    unfolding labels_unique_def list_all_iff by blast
  with assms(2-4) show ?thesis by blast
qed

lemma labels_unique_proper:
  assumes "labels_unique np U" "p \<in> set U"
  shows "label_of np p \<noteq> []" "label_of np p \<noteq> ''__proto__''"
proof -
  from assms(1) have "\<forall>p\<in>set U. label_of np p \<noteq> [] \<and> label_of np p \<noteq> ''__proto__''"
    unfolding labels_unique_def list_all_iff by blast
  with assms(2) show "label_of np p \<noteq> []" "label_of np p \<noteq> ''__proto__''" by blast+
qed

lemma loaded_tree_resolve:
  "path_resolve np p = path_resolve np q \<Longrightarrow> loaded_tree np rd p = loaded_tree np rd q"
  by (simp add: loaded_tree_def)

lemma track_paths_loaded:
  assumes "track_paths np rd rels (nfp, nl, st) = (nfp', nl', st')"
    and "labels_unique np U" "set rels \<subseteq> set U"
  shows "\<forall>p\<in>set rels. map_of (jsonCache st') (label_of np p) = Some (loaded_tree np rd p)"
  using assms
proof (induction rels arbitrary: nfp nl st)
  case Nil
  then show ?case by simp
next
  case (Cons rel rels)
  let ?c = "cache_assign (label_of np rel) (loaded_tree np rd rel) (jsonCache st)"
  from Cons.prems(1) obtain nfp1 nl1 st1 where
    rest: "track_paths np rd rels (nfp1, nl1, st1) = (nfp', nl', st')"
    and c1: "jsonCache st1 = ?c"
    by (simp add: track_step_eq loadFile_cache)
  from Cons.prems(3) have sub: "set rels \<subseteq> set U" and relU: "rel \<in> set U" by auto
  note IH = Cons.IH [OF rest Cons.prems(2) sub]
  show ?case
  proof
    fix p
    assume p: "p \<in> set (rel # rels)"
    show "map_of (jsonCache st') (label_of np p) = Some (loaded_tree np rd p)"
    proof (cases "label_of np p \<in> label_of np ` set rels")
      case True
      then obtain q where q: "q \<in> set rels" "label_of np q = label_of np p" by auto
      from q(1) sub have "q \<in> set U" by auto
      moreover from Cons.prems(3) p have "p \<in> set U" by auto
      ultimately have "path_resolve np q = path_resolve np p"
        using Cons.prems(2) q(2) by (intro labels_unique_resolve)
      then have "loaded_tree np rd q = loaded_tree np rd p" by (rule loaded_tree_resolve)
      with IH q show ?thesis by auto
    next
      case False
      with p have pr: "p = rel" by auto
      from track_paths_cache [OF rest] False
      have "map_of (jsonCache st') (label_of np p) = map_of (jsonCache st1) (label_of np p)"
        by simp
      also have "\<dots> = Some (loaded_tree np rd p)"
        using labels_unique_proper(2) [OF Cons.prems(2) relU]
        by (simp add: c1 pr cache_assign_map_of)
      finally show ?thesis .
    qed
  qed
qed


text \<open>What the second loop leaves.\<close>

lemma delete_keys_set: "fst ` set (AList.delete k al) = fst ` set al - {k}"
  using delete_keys [of k al, THEN arg_cong, of set] by simp

lemma list_all_delete: "list_all P al \<Longrightarrow> list_all P (AList.delete k al)"
  by (induction al) auto

lemma untrack_step_watchers:
  "jsonWatchers (untrack_step nfp p st) =
     (if p \<in> set nfp then jsonWatchers st else AList.delete p (jsonWatchers st))"
  by (simp add: untrack_step_def Let_def split: option.splits)

lemma untrack_step_pathLabels:
  "jsonPathLabels (untrack_step nfp p st) =
     (if p \<in> set nfp then jsonPathLabels st else AList.delete p (jsonPathLabels st))"
  by (simp add: untrack_step_def Let_def split: option.splits)

lemma untrack_step_cache:
  "jsonCache (untrack_step nfp p st) =
     (if p \<in> set nfp then jsonCache st
      else case map_of (jsonPathLabels st) p of
             None \<Rightarrow> jsonCache st
           | Some l \<Rightarrow> if l \<noteq> [] then AList.delete l (jsonCache st) else jsonCache st)"
  by (simp add: untrack_step_def Let_def split: option.splits)

lemma untrack_paths_watchers:
  "set (map fst (jsonWatchers (untrack_paths nfp es st)))
     = set (map fst (jsonWatchers st)) - (set (map fst es) - set nfp)
   \<and> (distinct (map fst (jsonWatchers st))
        \<longrightarrow> distinct (map fst (jsonWatchers (untrack_paths nfp es st))))
   \<and> (list_all P (jsonWatchers st) \<longrightarrow> list_all P (jsonWatchers (untrack_paths nfp es st)))"
proof (induction es arbitrary: st)
  case Nil
  show ?case by simp
next
  case (Cons e es)
  obtain p w where e: "e = (p, w)" by (cases e)
  let ?st = "untrack_step nfp p st"
  note IH = Cons.IH [of ?st]
  have k: "set (map fst (jsonWatchers ?st))
      = (if p \<in> set nfp then set (map fst (jsonWatchers st))
         else set (map fst (jsonWatchers st)) - {p})"
    by (simp add: untrack_step_watchers delete_keys_set)
  have d: "distinct (map fst (jsonWatchers st)) \<Longrightarrow> distinct (map fst (jsonWatchers ?st))"
    by (simp add: untrack_step_watchers distinct_delete)
  have a: "list_all P (jsonWatchers st) \<Longrightarrow> list_all P (jsonWatchers ?st)"
    by (simp add: untrack_step_watchers list_all_delete)
  from IH k have "set (map fst (jsonWatchers (untrack_paths nfp (e # es) st)))
     = set (map fst (jsonWatchers st)) - (set (map fst (e # es)) - set nfp)"
    unfolding e by (auto split: if_splits)
  moreover from IH d have "distinct (map fst (jsonWatchers st))
        \<longrightarrow> distinct (map fst (jsonWatchers (untrack_paths nfp (e # es) st)))"
    unfolding e by simp
  moreover from IH a have "list_all P (jsonWatchers st)
        \<longrightarrow> list_all P (jsonWatchers (untrack_paths nfp (e # es) st))"
    unfolding e by simp
  ultimately show ?case by blast
qed

lemma dropped_labels_Cons:
  assumes "p \<notin> set (map fst es)"
  shows "dropped_labels nfp ((p, w) # es) st
         = dropped_labels nfp es (untrack_step nfp p st)
           \<union> (if p \<in> set nfp then {}
              else {l. l \<noteq> [] \<and> map_of (jsonPathLabels st) p = Some l})"
proof -
  have same: "map_of (jsonPathLabels (untrack_step nfp p st)) q = map_of (jsonPathLabels st) q"
    if "q \<in> set (map fst es)" for q
  proof -
    from that assms have "q \<noteq> p" by auto
    then show ?thesis by (simp add: untrack_step_pathLabels delete_conv')
  qed
  have "dropped_labels nfp es (untrack_step nfp p st) = dropped_labels nfp es st"
    unfolding dropped_labels_def using same by (metis (no_types, lifting) DiffD1)
  then show ?thesis unfolding dropped_labels_def by auto
qed

lemma untrack_paths_cache:
  assumes "distinct (map fst es)"
  shows "set (map fst (jsonCache (untrack_paths nfp es st)))
           = set (map fst (jsonCache st)) - dropped_labels nfp es st
         \<and> (distinct (map fst (jsonCache st))
              \<longrightarrow> distinct (map fst (jsonCache (untrack_paths nfp es st))))
         \<and> (\<forall>l. l \<notin> dropped_labels nfp es st
              \<longrightarrow> map_of (jsonCache (untrack_paths nfp es st)) l = map_of (jsonCache st) l)"
  using assms
proof (induction es arbitrary: st)
  case Nil
  show ?case by (simp add: dropped_labels_def)
next
  case (Cons e es)
  obtain p w where e: "e = (p, w)" by (cases e)
  from Cons.prems e have notin: "p \<notin> set (map fst es)" and dist: "distinct (map fst es)"
    by auto
  let ?st = "untrack_step nfp p st"
  let ?here = "(if p \<in> set nfp then {}
              else {l. l \<noteq> [] \<and> map_of (jsonPathLabels st) p = Some l})"
  note IH = Cons.IH [OF dist, of ?st]
  note D = dropped_labels_Cons [OF notin, of nfp w st]
  have k: "set (map fst (jsonCache ?st)) = set (map fst (jsonCache st)) - ?here"
    by (auto simp: untrack_step_cache delete_keys_set split: option.splits)
  have d: "distinct (map fst (jsonCache st)) \<Longrightarrow> distinct (map fst (jsonCache ?st))"
    by (simp add: untrack_step_cache distinct_delete split: option.splits)
  have m: "map_of (jsonCache ?st) l = map_of (jsonCache st) l" if "l \<notin> ?here" for l
    using that by (auto simp: untrack_step_cache delete_conv' split: option.splits if_splits)
  from IH k D have "set (map fst (jsonCache (untrack_paths nfp (e # es) st)))
           = set (map fst (jsonCache st)) - dropped_labels nfp (e # es) st"
    unfolding e by auto
  moreover from IH d have "distinct (map fst (jsonCache st))
              \<longrightarrow> distinct (map fst (jsonCache (untrack_paths nfp (e # es) st)))"
    unfolding e by simp
  moreover have "map_of (jsonCache (untrack_paths nfp (e # es) st)) l = map_of (jsonCache st) l"
    if "l \<notin> dropped_labels nfp (e # es) st" for l
  proof -
    from that D have "l \<notin> dropped_labels nfp es ?st" "l \<notin> ?here" unfolding e by auto
    with IH m show ?thesis unfolding e by simp
  qed
  ultimately show ?case by blast
qed


lemma image_drop:
  assumes "\<And>r. r \<in> R \<Longrightarrow> f r \<notin> f ` (T - R)"
  shows "(f ` T \<union> f ` R) - f ` (T - R) = f ` R"
proof (rule set_eqI)
  fix x
  show "x \<in> (f ` T \<union> f ` R) - f ` (T - R) \<longleftrightarrow> x \<in> f ` R"
  proof
    assume x: "x \<in> (f ` T \<union> f ` R) - f ` (T - R)"
    show "x \<in> f ` R"
    proof (cases "x \<in> f ` R")
      case True
      then show ?thesis .
    next
      case False
      with x have "x \<in> f ` T" by blast
      then obtain p where p: "x = f p" "p \<in> T" by (rule imageE)
      with False have "p \<notin> R" by blast
      with p have "x \<in> f ` (T - R)" by blast
      with x show ?thesis by blast
    qed
  next
    assume "x \<in> f ` R"
    then obtain r where r: "x = f r" "r \<in> R" by (rule imageE)
    from assms [OF r(2)] r(1) have "x \<notin> f ` (T - R)" by simp
    with r show "x \<in> (f ` T \<union> f ` R) - f ` (T - R)" by blast
  qed
qed

lemma store_inv_label:
  assumes "store_inv np U st" "p \<in> set (map fst (jsonPathLabels st))"
  shows "map_of (jsonPathLabels st) p = Some (path_basename np p)"
proof -
  from assms(2) obtain l where mem: "(p, l) \<in> set (jsonPathLabels st)" by auto
  from assms(1) have "distinct (map fst (jsonPathLabels st))"
    and "list_all (\<lambda>(p, l). l = path_basename np p) (jsonPathLabels st)"
    by (simp_all add: store_inv_def)
  with mem show ?thesis by (auto simp: list_all_iff)
qed

lemma store_inv_tracked:
  assumes "store_inv np U st" "p \<in> set (map fst (jsonPathLabels st))"
  obtains u where "u \<in> set U" "path_resolve np u = p"
proof -
  from assms have "p \<in> path_resolve np ` set U" by (auto simp: store_inv_def)
  then show ?thesis using that by auto
qed

lemma handle_establishes:
  assumes inv: "store_inv np U st" and uniq: "labels_unique np U" and sub: "set ps \<subseteq> set U"
  shows "store_inv np U (handleJsonCacheAndWatcher np rd ps st)
         \<and> set (map fst (jsonPathLabels (handleJsonCacheAndWatcher np rd ps st)))
             = path_resolve np ` set ps
         \<and> (\<forall>p\<in>set ps. map_of (jsonCache (handleJsonCacheAndWatcher np rd ps st)) (label_of np p)
                          = Some (loaded_tree np rd p))"
proof -
  obtain nfp nl st1 where tr: "track_paths np rd ps ([], [], st) = (nfp, nl, st1)"
    by (cases "track_paths np rd ps ([], [], st)") auto
  let ?T = "set (map fst (jsonPathLabels st))"
  let ?R = "path_resolve np ` set ps"
  let ?es = "jsonWatchers st1"
  let ?st2 = "untrack_paths nfp ?es st1"
  have h: "handleJsonCacheAndWatcher np rd ps st = ?st2\<lparr>jsonPathLabels := nl\<rparr>"
    by (simp add: handleJsonCacheAndWatcher_def tr)
  from inv have dc: "distinct (map fst (jsonCache st))" and dw: "distinct (map fst (jsonWatchers st))"
    and wk: "set (map fst (jsonWatchers st)) = ?T"
    and wa: "list_all (\<lambda>(p, rel). path_resolve np rel = p) (jsonWatchers st)"
    and ck: "set (map fst (jsonCache st)) = path_basename np ` ?T"
    by (simp_all add: store_inv_def)
  have nfp: "set nfp = ?R" using track_paths_newFullPaths [OF tr] by simp
  have nl: "set (map fst nl) = ?R" "distinct (map fst nl)"
    "list_all (\<lambda>(p, l). l = path_basename np p) nl"
    using track_paths_newLabels [OF tr] by simp_all
  have pl1: "jsonPathLabels st1 = jsonPathLabels st" using tr by (rule track_paths_pathLabels)
  have w1: "set (map fst ?es) = ?T \<union> ?R" "distinct (map fst ?es)"
    "list_all (\<lambda>(p, rel). path_resolve np rel = p) ?es"
    using track_paths_watchers [OF tr] dw wk wa by simp_all
  have proper: "label_of np p \<noteq> ''__proto__''" "label_of np p \<noteq> []" if "p \<in> set ps" for p
    using labels_unique_proper [OF uniq] that sub by auto
  have lab: "label_of np ` set ps = path_basename np ` ?R"
    by (auto simp: label_of_def)
  have "''__proto__'' \<notin> label_of np ` set ps"
  proof
    assume "''__proto__'' \<in> label_of np ` set ps"
    then obtain p where "p \<in> set ps" "label_of np p = ''__proto__''" by (auto simp: image_iff)
    with proper(1) show False by blast
  qed
  then have np': "label_of np ` set ps - {''__proto__''} = label_of np ` set ps" by blast
  have "set (map fst (jsonCache st1))
      = set (map fst (jsonCache st)) \<union> (label_of np ` set ps - {''__proto__''})"
    using track_paths_cache [OF tr] by blast
  then have "set (map fst (jsonCache st1))
      = set (map fst (jsonCache st)) \<union> label_of np ` set ps"
    by (simp only: np')
  then have c1k: "set (map fst (jsonCache st1)) = path_basename np ` ?T \<union> path_basename np ` ?R"
    by (simp only: lab ck)
  have c1d: "distinct (map fst (jsonCache st1))" using track_paths_cache [OF tr] dc by simp
  have c1l: "\<forall>p\<in>set ps. map_of (jsonCache st1) (label_of np p) = Some (loaded_tree np rd p)"
    using tr uniq sub by (rule track_paths_loaded)
  \<comment> \<open>the labels deleted by the second loop are those of the paths no longer configured\<close>
  have lk: "map_of (jsonPathLabels st1) p = Some (path_basename np p)"
    and ne: "path_basename np p \<noteq> []" if "p \<in> ?T" for p
  proof -
    from store_inv_tracked [OF inv that] obtain u where u: "u \<in> set U" "path_resolve np u = p" .
    from labels_unique_proper(1) [OF uniq u(1)] u(2) show "path_basename np p \<noteq> []"
      by (simp add: label_of_def)
    from store_inv_label [OF inv that]
    show "map_of (jsonPathLabels st1) p = Some (path_basename np p)" by (simp add: pl1)
  qed
  have dropped: "dropped_labels nfp ?es st1 = path_basename np ` (?T - ?R)"
  proof (rule set_eqI)
    fix l
    show "l \<in> dropped_labels nfp ?es st1 \<longleftrightarrow> l \<in> path_basename np ` (?T - ?R)"
    proof
      assume "l \<in> dropped_labels nfp ?es st1"
      then obtain p where p: "p \<in> set (map fst ?es) - set nfp"
        "map_of (jsonPathLabels st1) p = Some l"
        unfolding dropped_labels_def by blast
      from p(1) have pT: "p \<in> ?T" and pR: "p \<notin> ?R" unfolding w1(1) nfp by blast+
      from lk [OF pT] p(2) have "l = path_basename np p" by simp
      with pT pR show "l \<in> path_basename np ` (?T - ?R)" by blast
    next
      assume "l \<in> path_basename np ` (?T - ?R)"
      then obtain p where pT: "p \<in> ?T" and pR: "p \<notin> ?R" and l: "l = path_basename np p"
        by blast
      from pT pR have "p \<in> set (map fst ?es) - set nfp" unfolding w1(1) nfp by blast
      moreover from lk [OF pT] l have "map_of (jsonPathLabels st1) p = Some l" by simp
      moreover from ne [OF pT] l have "l \<noteq> []" by simp
      ultimately show "l \<in> dropped_labels nfp ?es st1" unfolding dropped_labels_def by blast
    qed
  qed
  \<comment> \<open>a configured path never shares its label with a path that is dropped\<close>
  have apart: "path_basename np r \<notin> path_basename np ` (?T - ?R)" if "r \<in> ?R" for r
  proof
    assume "path_basename np r \<in> path_basename np ` (?T - ?R)"
    then obtain p where p0: "path_basename np r = path_basename np p" "p \<in> ?T - ?R"
      by (rule imageE)
    then have p: "p \<in> ?T" "p \<notin> ?R" "path_basename np p = path_basename np r"
      by simp_all
    from store_inv_tracked [OF inv p(1)] obtain u where u: "u \<in> set U" "path_resolve np u = p" .
    from that obtain q where q: "q \<in> set ps" "path_resolve np q = r" by auto
    from q(1) sub have "q \<in> set U" by auto
    moreover have "label_of np u = label_of np q" using u(2) q(2) p(3) by (simp add: label_of_def)
    ultimately have "path_resolve np u = path_resolve np q"
      using uniq u(1) by (intro labels_unique_resolve)
    with u(2) q(2) p(2) that show False by simp
  qed
  have w2: "set (map fst (jsonWatchers ?st2)) = ?R" "distinct (map fst (jsonWatchers ?st2))"
    "list_all (\<lambda>(p, rel). path_resolve np rel = p) (jsonWatchers ?st2)"
  proof -
    note uw = untrack_paths_watchers [of nfp ?es st1 "\<lambda>(p, rel). path_resolve np rel = p"]
    from uw have "set (map fst (jsonWatchers ?st2))
        = set (map fst ?es) - (set (map fst ?es) - set nfp)" by blast
    also have "\<dots> = ?R" unfolding w1(1) nfp by blast
    finally show "set (map fst (jsonWatchers ?st2)) = ?R" .
    from uw w1(2) show "distinct (map fst (jsonWatchers ?st2))" by blast
    from uw w1(3) show "list_all (\<lambda>(p, rel). path_resolve np rel = p) (jsonWatchers ?st2)"
      by blast
  qed
  note uc = untrack_paths_cache [OF w1(2), of nfp st1]
  have c2k: "set (map fst (jsonCache ?st2)) = path_basename np ` ?R"
  proof -
    from uc have "set (map fst (jsonCache ?st2))
        = (path_basename np ` ?T \<union> path_basename np ` ?R) - path_basename np ` (?T - ?R)"
      unfolding dropped c1k by simp
    also have "\<dots> = path_basename np ` ?R" using apart by (rule image_drop)
    finally show ?thesis .
  qed
  have c2d: "distinct (map fst (jsonCache ?st2))" using uc c1d by simp
  have c2l: "map_of (jsonCache ?st2) (label_of np p) = Some (loaded_tree np rd p)"
    if "p \<in> set ps" for p
  proof -
    from that have "path_resolve np p \<in> ?R" by simp
    from apart [OF this] have "label_of np p \<notin> dropped_labels nfp ?es st1"
      unfolding dropped by (simp add: label_of_def)
    with uc have "map_of (jsonCache ?st2) (label_of np p) = map_of (jsonCache st1) (label_of np p)"
      by simp
    with c1l that show ?thesis by simp
  qed
  have "?R \<subseteq> path_resolve np ` set U" using sub by auto
  then have "store_inv np U (?st2\<lparr>jsonPathLabels := nl\<rparr>)"
    unfolding store_inv_def using c2d w2 nl c2k by simp
  moreover have "set (map fst (jsonPathLabels (?st2\<lparr>jsonPathLabels := nl\<rparr>))) = ?R"
    using nl(1) by simp
  moreover have "\<forall>p\<in>set ps. map_of (jsonCache (?st2\<lparr>jsonPathLabels := nl\<rparr>)) (label_of np p)
                          = Some (loaded_tree np rd p)"
    using c2l by simp
  ultimately show ?thesis unfolding h by blast
qed


text \<open>A notification for a watched file touches the entry of that file's label only.\<close>

lemma watched_label:
  assumes inv: "store_inv np U st" and uniq: "labels_unique np U"
    and w: "map_of (jsonWatchers st) p = Some rel"
  shows "label_of np rel \<in> set (map fst (jsonCache st))" "label_of np rel \<noteq> ''__proto__''"
proof -
  from w have mem: "(p, rel) \<in> set (jsonWatchers st)" by (rule map_of_SomeD)
  from inv have "list_all (\<lambda>(p, rel). path_resolve np rel = p) (jsonWatchers st)"
    by (simp add: store_inv_def)
  with mem have res: "path_resolve np rel = p" by (auto simp: list_all_iff)
  from mem have "fst (p, rel) \<in> fst ` set (jsonWatchers st)" by (rule imageI)
  then have "p \<in> set (map fst (jsonWatchers st))" by simp
  with inv have pT: "p \<in> set (map fst (jsonPathLabels st))" by (simp add: store_inv_def)
  from inv have "set (map fst (jsonCache st)) = path_basename np ` set (map fst (jsonPathLabels st))"
    by (simp add: store_inv_def)
  with pT res show "label_of np rel \<in> set (map fst (jsonCache st))"
    by (simp add: label_of_def)
  from store_inv_tracked [OF inv pT] obtain u where u: "u \<in> set U" "path_resolve np u = p" .
  from labels_unique_proper(2) [OF uniq u(1)] u(2) res
  show "label_of np rel \<noteq> ''__proto__''" by (simp add: label_of_def)
qed

lemma cache_assign_inv:
  assumes inv: "store_inv np U st"
    and l: "l \<in> set (map fst (jsonCache st))" "l \<noteq> ''__proto__''"
    and st': "jsonCache st' = cache_assign l v (jsonCache st)"
      "jsonWatchers st' = jsonWatchers st" "jsonPathLabels st' = jsonPathLabels st"
  shows "store_inv np U st'"
proof -
  from l have "set (map fst (cache_assign l v (jsonCache st))) = set (map fst (jsonCache st))"
    using cache_assign_keys [of l v "jsonCache st"] by auto
  moreover from inv have "distinct (map fst (cache_assign l v (jsonCache st)))"
    by (simp add: store_inv_def cache_assign_distinct)
  ultimately show ?thesis using inv unfolding store_inv_def st' by simp
qed

lemma store_step_inv:
  assumes inv: "store_inv np U st" and uniq: "labels_unique np U"
    and sub: "set (configured_ever [(rd, ev)]) \<subseteq> set U"
    and cur: "set (map fst (jsonPathLabels st)) = path_resolve np ` set cur"
  shows "store_inv np U (store_step np rd ev st)
         \<and> set (map fst (jsonPathLabels (store_step np rd ev st)))
             = path_resolve np ` set (configured_now cur [(rd, ev)])"
proof (cases ev)
  case (ConfigChanged ps)
  with sub have "set ps \<subseteq> set U" by simp
  from handle_establishes [OF inv uniq this, of rd] ConfigChanged show ?thesis by simp
next
  case (FileChanged p)
  show ?thesis
  proof (cases "map_of (jsonWatchers st) p")
    case None
    with FileChanged inv cur show ?thesis by simp
  next
    case (Some rel)
    note wl = watched_label [OF inv uniq Some]
    have "store_inv np U (loadFile np rd rel st)"
      using inv wl by (rule cache_assign_inv) (simp_all add: loadFile_cache loadFile_others)
    with FileChanged Some cur show ?thesis by (simp add: loadFile_others)
  qed
next
  case (FileCreated p)
  show ?thesis
  proof (cases "map_of (jsonWatchers st) p")
    case None
    with FileCreated inv cur show ?thesis by simp
  next
    case (Some rel)
    note wl = watched_label [OF inv uniq Some]
    have "store_inv np U (loadFile np rd rel st)"
      using inv wl by (rule cache_assign_inv) (simp_all add: loadFile_cache loadFile_others)
    with FileCreated Some cur show ?thesis by (simp add: loadFile_others)
  qed
next
  case (FileDeleted p)
  show ?thesis
  proof (cases "map_of (jsonWatchers st) p")
    case None
    with FileDeleted inv cur show ?thesis by simp
  next
    case (Some rel)
    note wl = watched_label [OF inv uniq Some]
    have "store_inv np U (st\<lparr>jsonCache := cache_assign (label_of np rel) (JObj []) (jsonCache st)\<rparr>)"
      using inv wl by (rule cache_assign_inv) simp_all
    with FileDeleted Some cur show ?thesis by (simp add: label_of_def)
  qed
qed

lemma configured_ever_Cons:
  "set (configured_ever (e # tr)) = set (configured_ever [e]) \<union> set (configured_ever tr)"
proof -
  obtain rd ev where e: "e = (rd, ev)" by (cases e)
  show ?thesis unfolding e by (cases ev) auto
qed

lemma configured_now_Cons:
  "configured_now cur (e # tr) = configured_now (configured_now cur [e]) tr"
proof -
  obtain rd ev where e: "e = (rd, ev)" by (cases e)
  show ?thesis unfolding e by (cases ev) auto
qed

lemma run_store_inv:
  assumes "store_inv np U st" "labels_unique np U" "set (configured_ever tr) \<subseteq> set U"
    "set (map fst (jsonPathLabels st)) = path_resolve np ` set cur"
  shows "store_inv np U (run_store np tr st)
         \<and> set (map fst (jsonPathLabels (run_store np tr st)))
             = path_resolve np ` set (configured_now cur tr)"
  using assms
proof (induction tr arbitrary: st cur)
  case Nil
  then show ?case by simp
next
  case (Cons e tr)
  obtain rd ev where e: "e = (rd, ev)" by (cases e)
  from Cons.prems(3) have "set (configured_ever [(rd, ev)]) \<union> set (configured_ever tr) \<subseteq> set U"
    using configured_ever_Cons [of e tr] by (simp add: e)
  then have sub1: "set (configured_ever [(rd, ev)]) \<subseteq> set U"
    and sub2: "set (configured_ever tr) \<subseteq> set U"
    by blast+
  from store_step_inv [OF Cons.prems(1,2) sub1 Cons.prems(4)]
  have inv1: "store_inv np U (store_step np rd ev st)"
    and cur1: "set (map fst (jsonPathLabels (store_step np rd ev st)))
             = path_resolve np ` set (configured_now cur [(rd, ev)])"
    by blast+
  from Cons.IH [OF inv1 Cons.prems(2) sub2 cur1]
  show ?case unfolding e configured_now_Cons [of cur "(rd, ev)" tr] by simp
qed

lemma initial_store_inv: "store_inv np U initial_store"
  by (simp add: store_inv_def initial_store_def)

lemma run_store_snoc:
  "run_store np (tr @ [(rd, ev)]) st = store_step np rd ev (run_store np tr st)"
  by (induction tr arbitrary: st) auto

lemma configured_ever_append:
  "set (configured_ever (tr @ tr')) = set (configured_ever tr) \<union> set (configured_ever tr')"
proof (induction tr)
  case Nil
  show ?case by simp
next
  case (Cons e tr)
  show ?case
    using Cons.IH configured_ever_Cons [of e "tr @ tr'"] configured_ever_Cons [of e tr]
    by auto
qed

lemma hover_blocks_labels: "fst ` set (hover_blocks env js key) \<subseteq> fst ` set js"
proof (induction js)
  case Nil
  show ?case by simp
next
  case (Cons e js)
  obtain lang jsonData where e: "e = (lang, jsonData)" by (cases e)
  from Cons.IH show ?case unfolding e by (cases "getValueByKey env jsonData key = JUndefined") auto
qed



lemma getValueByKey_empty_object:
  assumes "env (JObj []) (hd (split_dot key)) = JUndefined"
  shows "getValueByKey env (JObj []) key = JUndefined"
proof -
  obtain s rest where sp: "split_dot key = s # rest"
    using split_dot_not_Nil [of key] by (cases "split_dot key") auto
  with assms show ?thesis by (simp add: getValueByKey_def foldl_get_prop_undefined)
qed

text \<open>
  A failed load is local. When reading or parsing the file of a path fails,
  \<^verbatim>\<open>loadFile\<close> returns normally: it appends one message to the console, puts the
  empty object under the path's label (for every label that is a property name the cache
  can hold, that is, other than \<^verbatim>\<open>__proto__\<close>) and leaves the entry of every
  other label, the watchers and the path labels as they were. A lookup in the empty
  object is \<^verbatim>\<open>undefined\<close> for every key whose first segment reaches no
  inherited member.
\<close>

lemma loadFile_failure_is_local:
  assumes "rd (path_resolve np relativePath) = Inl msg"
  shows "console (loadFile np rd relativePath st) = console st @ [error_message relativePath msg]
    \<and> (label_of np relativePath \<noteq> ''__proto__'' \<longrightarrow>
          map_of (getAllCachedJson (loadFile np rd relativePath st)) (label_of np relativePath)
            = Some (JObj []))
    \<and> (\<forall>l. l \<noteq> label_of np relativePath \<longrightarrow>
          map_of (getAllCachedJson (loadFile np rd relativePath st)) l
            = map_of (getAllCachedJson st) l)
    \<and> (\<forall>key. env (JObj []) (hd (split_dot key)) = JUndefined \<longrightarrow>
          getValueByKey env (JObj []) key = JUndefined)
    \<and> jsonWatchers (loadFile np rd relativePath st) = jsonWatchers st
    \<and> jsonPathLabels (loadFile np rd relativePath st) = jsonPathLabels st"
proof -
  have t: "loaded_tree np rd relativePath = JObj []" using assms by (simp add: loaded_tree_def)
  have c: "jsonCache (loadFile np rd relativePath st)
      = cache_assign (label_of np relativePath) (JObj []) (jsonCache st)"
    using loadFile_cache [of np rd relativePath st] t by simp
  have "console (loadFile np rd relativePath st) = console st @ [error_message relativePath msg]"
    using assms by (simp add: loadFile_def Let_def)
  then show ?thesis
    using getValueByKey_empty_object [of env]
    by (simp add: getAllCachedJson_def c cache_assign_map_of loadFile_others)
qed

lemma loadFile_failure_is_local_example:
  "map_of (getAllCachedJson (loadFile posix_path (\<lambda>p. Inl ''ENOENT'') ''i18n/vi.json''
       \<lparr>jsonCache = [(''en'', JObj [(''a'', JStr ''x'')])], jsonWatchers = [],
        jsonPathLabels = [], console = []\<rparr>)) ''vi'' = Some (JObj [])
   \<and> map_of (getAllCachedJson (loadFile posix_path (\<lambda>p. Inl ''ENOENT'') ''i18n/vi.json''
       \<lparr>jsonCache = [(''en'', JObj [(''a'', JStr ''x'')])], jsonWatchers = [],
        jsonPathLabels = [], console = []\<rparr>)) ''en'' = Some (JObj [(''a'', JStr ''x'')])
   \<and> getValueByKey object_prototype_env (JObj []) ''a.b'' = JUndefined"
proof -
  have l: "label_of posix_path ''i18n/vi.json'' = ''vi''"
    by (simp add: label_of_def posix_path_def last_component_def strip_json_def)
  have e: "object_prototype_env (JObj []) (hd (split_dot ''a.b'')) = JUndefined"
    by (simp add: object_prototype_env_def object_prototype_names_def)
  show ?thesis
    using loadFile_failure_is_local [of "\<lambda>p. Inl ''ENOENT''" posix_path "''i18n/vi.json''" "''ENOENT''"
        "\<lparr>jsonCache = [(''en'', JObj [(''a'', JStr ''x'')])], jsonWatchers = [],
        jsonPathLabels = [], console = []\<rparr>" object_prototype_env] l e
    by (simp add: getAllCachedJson_def)
qed

text \<open>
  C8 at a concrete failure. The file \<^verbatim>\<open>i18n/en.json\<close> is malformed, so the
  label \<^verbatim>\<open>en\<close> holds the empty object. The claim says that no key resolves to
  a value for that label. With the cursor on the word \<^verbatim>\<open>constructor\<close> of the line
  \<^verbatim>\<open>  constructor() {}\<close> the text at the cursor is that word, its lookup in the
  empty object is the constructor that every object inherits, so the word is taken for a
  key and the hover loop shows a value for \<^verbatim>\<open>en\<close>.
\<close>

theorem loadFile_failure_inherited_member:
  "getAllCachedJson (loadFile posix_path (\<lambda>p. Inl ''Unexpected end of JSON input'')
       ''i18n/en.json'' initial_store) = [(''en'', JObj [])]
   \<and> getFullTextAtPosition ''  constructor() {}'' 5 = Some ''constructor''
   \<and> key_at_position defaultConfig object_prototype_env
        (getAllCachedJson (loadFile posix_path (\<lambda>p. Inl ''Unexpected end of JSON input'')
           ''i18n/en.json'' initial_store))
        ''  constructor() {}'' 5 = Some ''constructor''
   \<and> getValueByKey object_prototype_env (JObj []) ''constructor'' = JHost ''constructor''
   \<and> hover_blocks object_prototype_env
        (getAllCachedJson (loadFile posix_path (\<lambda>p. Inl ''Unexpected end of JSON input'')
           ''i18n/en.json'' initial_store))
        ''constructor'' = [(''en'', JHost ''constructor'')]"
  by code_simp

lemma configured_now_subset:
  "set (configured_now cur tr) \<subseteq> set cur \<union> set (configured_ever tr)"
proof (induction tr arbitrary: cur)
  case Nil
  show ?case by simp
next
  case (Cons e tr)
  obtain rd ev where e: "e = (rd, ev)" by (cases e)
  show ?case using Cons.IH [of cur] Cons.IH [of "case ev of ConfigChanged ps \<Rightarrow> ps | _ \<Rightarrow> cur"]
    unfolding e by (cases ev) auto
qed

text \<open>
  Where the labels of all paths a history ever configured are unique (two configured
  paths with the same label are the same file, and no label is empty or
  \<^verbatim>\<open>__proto__\<close>), the result of \<^verbatim>\<open>getAllCachedJson\<close> holds each label
  once after every history of configuration changes and file notifications; its labels
  are exactly the labels of the currently configured paths, each the label of exactly one
  configured file; the label of a path that was configured and is not any more is absent,
  and the hover loop yields nothing for it, for as long as the path stays out of the
  configuration; and right after a configuration change every configured label holds the
  tree loaded from its own file.
\<close>

lemma store_labels_follow_configuration:
  assumes uniq: "labels_unique np (configured_ever history)"
  shows "distinct (map fst (getAllCachedJson (run_store np history initial_store)))
    \<and> set (map fst (getAllCachedJson (run_store np history initial_store)))
        = label_of np ` set (configured_now [] history)
    \<and> (\<forall>l\<in>set (map fst (getAllCachedJson (run_store np history initial_store))).
          \<exists>!full. full \<in> path_resolve np ` set (configured_now [] history)
                   \<and> path_basename np full = l)
    \<and> (\<forall>p\<in>set (configured_ever history).
          path_resolve np p \<notin> path_resolve np ` set (configured_now [] history) \<longrightarrow>
            label_of np p \<notin> set (map fst (getAllCachedJson (run_store np history initial_store)))
            \<and> (\<forall>key. label_of np p
                  \<notin> fst ` set (hover_blocks env
                                 (getAllCachedJson (run_store np history initial_store)) key)))
    \<and> (\<forall>h0 rd ps. history = h0 @ [(rd, ConfigChanged ps)] \<longrightarrow>
          (\<forall>p\<in>set ps. map_of (getAllCachedJson (run_store np history initial_store))
                           (label_of np p) = Some (loaded_tree np rd p)))"
proof -
  let ?U = "configured_ever history"
  let ?st = "run_store np history initial_store"
  let ?now = "configured_now [] history"
  have "set (map fst (jsonPathLabels initial_store)) = path_resolve np ` set []"
    by (simp add: initial_store_def)
  from run_store_inv [OF initial_store_inv uniq subset_refl this]
  have inv: "store_inv np ?U ?st"
    and tracked: "set (map fst (jsonPathLabels ?st)) = path_resolve np ` set ?now"
    by blast+
  have nowU: "set ?now \<subseteq> set ?U" using configured_now_subset [of "[]" history] by simp
  from inv have d: "distinct (map fst (jsonCache ?st))" by (simp add: store_inv_def)
  have keys: "set (map fst (jsonCache ?st)) = label_of np ` set ?now"
  proof -
    from inv have "set (map fst (jsonCache ?st))
        = path_basename np ` set (map fst (jsonPathLabels ?st))"
      unfolding store_inv_def by blast
    also have "\<dots> = path_basename np ` path_resolve np ` set ?now" by (simp only: tracked)
    also have "\<dots> = label_of np ` set ?now" by (simp add: image_image label_of_def)
    finally show ?thesis .
  qed
  have one: "\<exists>!full. full \<in> path_resolve np ` set ?now \<and> path_basename np full = l"
    if "l \<in> set (map fst (jsonCache ?st))" for l
  proof -
    from that keys obtain q where q: "l = label_of np q" "q \<in> set ?now" by blast
    show ?thesis
    proof (rule ex1I [of _ "path_resolve np q"])
      show "path_resolve np q \<in> path_resolve np ` set ?now
            \<and> path_basename np (path_resolve np q) = l"
        using q by (simp add: label_of_def)
    next
      fix full
      assume "full \<in> path_resolve np ` set ?now \<and> path_basename np full = l"
      then obtain q' where q': "full = path_resolve np q'" "q' \<in> set ?now"
        and l: "path_basename np full = l" by blast
      from q' l q(1) have "label_of np q' = label_of np q" by (simp add: label_of_def)
      moreover from q(2) q'(2) nowU have "q \<in> set ?U" "q' \<in> set ?U" by blast+
      ultimately have "path_resolve np q' = path_resolve np q"
        using uniq by (intro labels_unique_resolve)
      with q'(1) show "full = path_resolve np q" by simp
    qed
  qed
  have gone: "label_of np p \<notin> set (map fst (jsonCache ?st))"
    if p: "p \<in> set ?U" "path_resolve np p \<notin> path_resolve np ` set ?now" for p
  proof
    assume "label_of np p \<in> set (map fst (jsonCache ?st))"
    with keys obtain q where q: "label_of np p = label_of np q" "q \<in> set ?now" by blast
    from q(2) nowU have "q \<in> set ?U" by blast
    with uniq p(1) q(1) have "path_resolve np p = path_resolve np q"
      by (intro labels_unique_resolve)
    with q(2) p(2) show False by blast
  qed
  have silent: "label_of np p \<notin> fst ` set (hover_blocks env (jsonCache ?st) key)"
    if p: "p \<in> set ?U" "path_resolve np p \<notin> path_resolve np ` set ?now" for p key
  proof -
    from hover_blocks_labels [of env "jsonCache ?st" key]
    have "fst ` set (hover_blocks env (jsonCache ?st) key) \<subseteq> set (map fst (jsonCache ?st))"
      by simp
    with gone [OF p] show ?thesis by blast
  qed
  have fresh: "map_of (jsonCache ?st) (label_of np p) = Some (loaded_tree np rd p)"
    if h: "history = h0 @ [(rd, ConfigChanged ps)]" and p: "p \<in> set ps" for h0 rd ps p
  proof -
    have ev: "set ?U = set (configured_ever h0) \<union> set ps"
      unfolding h configured_ever_append by simp
    then have sub0: "set (configured_ever h0) \<subseteq> set ?U" and subp: "set ps \<subseteq> set ?U" by blast+
    have "set (map fst (jsonPathLabels initial_store)) = path_resolve np ` set []"
      by (simp add: initial_store_def)
    from run_store_inv [OF initial_store_inv uniq sub0 this]
    have inv0: "store_inv np ?U (run_store np h0 initial_store)" by blast
    from handle_establishes [OF inv0 uniq subp, of rd] p
    have "map_of (jsonCache (handleJsonCacheAndWatcher np rd ps (run_store np h0 initial_store)))
            (label_of np p) = Some (loaded_tree np rd p)" by blast
    moreover have "run_store np (h0 @ [(rd, ConfigChanged ps)]) initial_store
        = handleJsonCacheAndWatcher np rd ps (run_store np h0 initial_store)"
      by (simp add: run_store_snoc)
    ultimately show ?thesis using h by simp
  qed
  have c3: "\<forall>l\<in>set (map fst (jsonCache ?st)).
          \<exists>!full. full \<in> path_resolve np ` set ?now \<and> path_basename np full = l"
    using one by (intro ballI)
  have c4: "\<forall>p\<in>set ?U. path_resolve np p \<notin> path_resolve np ` set ?now \<longrightarrow>
            label_of np p \<notin> set (map fst (jsonCache ?st))
            \<and> (\<forall>key. label_of np p \<notin> fst ` set (hover_blocks env (jsonCache ?st) key))"
    using gone silent by (intro ballI impI conjI allI)
  have c5: "\<forall>h0 rd ps. history = h0 @ [(rd, ConfigChanged ps)] \<longrightarrow>
          (\<forall>p\<in>set ps. map_of (jsonCache ?st) (label_of np p) = Some (loaded_tree np rd p))"
    using fresh by (intro allI impI ballI)
  show ?thesis unfolding getAllCachedJson_def by (intro conjI d keys c3 c4 c5)
qed

lemma posix_labels:
  "label_of posix_path ''a/en.json'' = ''en''"
  "label_of posix_path ''b/en.json'' = ''en''"
  "label_of posix_path ''i18n/en.json'' = ''en''"
  "label_of posix_path ''i18n/vi.json'' = ''vi''"
  by (simp_all add: label_of_def posix_path_def last_component_def strip_json_def)

lemma store_labels_follow_configuration_example:
  "labels_unique posix_path
     (configured_ever
        [(\<lambda>p. Inr (JObj [(''k'', JStr p)]), ConfigChanged [''i18n/en.json'', ''i18n/vi.json'']),
         (\<lambda>p. Inr (JObj [(''k'', JStr p)]), ConfigChanged [''i18n/vi.json''])])
   \<and> set (map fst (getAllCachedJson (run_store posix_path
        [(\<lambda>p. Inr (JObj [(''k'', JStr p)]), ConfigChanged [''i18n/en.json'', ''i18n/vi.json'']),
         (\<lambda>p. Inr (JObj [(''k'', JStr p)]), ConfigChanged [''i18n/vi.json''])]
        initial_store))) = {''vi''}
   \<and> map_of (getAllCachedJson (run_store posix_path
        [(\<lambda>p. Inr (JObj [(''k'', JStr p)]), ConfigChanged [''i18n/en.json'', ''i18n/vi.json'']),
         (\<lambda>p. Inr (JObj [(''k'', JStr p)]), ConfigChanged [''i18n/vi.json''])]
        initial_store)) ''vi'' = Some (JObj [(''k'', JStr ''/w/i18n/vi.json'')])"
proof -
  let ?rd = "\<lambda>p. Inr (JObj [(''k'', JStr p)]) :: string + jsval"
  let ?h = "[(?rd, ConfigChanged [''i18n/en.json'', ''i18n/vi.json'']),
            (?rd, ConfigChanged [''i18n/vi.json''])]"
  have u: "labels_unique posix_path (configured_ever ?h)"
    unfolding labels_unique_def by (simp add: posix_labels)
  have t: "loaded_tree posix_path ?rd ''i18n/vi.json'' = JObj [(''k'', JStr ''/w/i18n/vi.json'')]"
    by (simp add: loaded_tree_def posix_path_def)
  note inst = store_labels_follow_configuration [OF u, of object_prototype_env]
  from inst have "set (map fst (getAllCachedJson (run_store posix_path ?h initial_store)))
        = label_of posix_path ` set (configured_now [] ?h)" by blast
  then have a: "set (map fst (getAllCachedJson (run_store posix_path ?h initial_store))) = {''vi''}"
    by (simp add: posix_labels)
  from inst have "\<forall>h0 rd ps. ?h = h0 @ [(rd, ConfigChanged ps)] \<longrightarrow>
          (\<forall>p\<in>set ps. map_of (getAllCachedJson (run_store posix_path ?h initial_store))
                           (label_of posix_path p) = Some (loaded_tree posix_path rd p))"
    by blast
  from this [rule_format, of "[(?rd, ConfigChanged [''i18n/en.json'', ''i18n/vi.json''])]"
      ?rd "[''i18n/vi.json'']" "''i18n/vi.json''"]
  have b: "map_of (getAllCachedJson (run_store posix_path ?h initial_store)) ''vi''
      = Some (JObj [(''k'', JStr ''/w/i18n/vi.json'')])"
    by (simp add: posix_labels t)
  from u a b show ?thesis by blast
qed

text \<open>
  Two configured paths with one label share one entry. With \<^verbatim>\<open>a/en.json\<close> and
  \<^verbatim>\<open>b/en.json\<close> both configured, the label \<^verbatim>\<open>en\<close> belongs to two configured
  paths. When \<^verbatim>\<open>a/en.json\<close> is then removed, the entry of \<^verbatim>\<open>en\<close> is
  deleted although \<^verbatim>\<open>b/en.json\<close> is still configured. And when
  \<^verbatim>\<open>a/en.json\<close> is replaced by \<^verbatim>\<open>b/en.json\<close>, the label is back after the
  next change of \<^verbatim>\<open>b/en.json\<close>.
\<close>

lemma store_shared_label:
  "map fst (getAllCachedJson (run_store posix_path
      [(\<lambda>p. Inr (JObj [(''k'', JStr p)]), ConfigChanged [''a/en.json'', ''b/en.json''])]
      initial_store)) = [''en'']
   \<and> label_of posix_path ''a/en.json'' = ''en''
   \<and> label_of posix_path ''b/en.json'' = ''en''
   \<and> path_resolve posix_path ''a/en.json'' \<noteq> path_resolve posix_path ''b/en.json''
   \<and> getAllCachedJson (run_store posix_path
      [(\<lambda>p. Inr (JObj [(''k'', JStr p)]), ConfigChanged [''a/en.json'', ''b/en.json'']),
       (\<lambda>p. Inr (JObj [(''k'', JStr p)]), ConfigChanged [''b/en.json''])]
      initial_store) = []
   \<and> getAllCachedJson (run_store posix_path
      [(\<lambda>p. Inr (JObj [(''k'', JStr p)]), ConfigChanged [''a/en.json'']),
       (\<lambda>p. Inr (JObj [(''k'', JStr p)]), ConfigChanged [''b/en.json'']),
       (\<lambda>p. Inr (JObj [(''k'', JStr p)]), FileChanged ''/w/b/en.json'')]
      initial_store) = [(''en'', JObj [(''k'', JStr ''/w/b/en.json'')])]"
  by (simp add: getAllCachedJson_def initial_store_def handleJsonCacheAndWatcher_def
      track_step_def untrack_step_def loadFile_def Let_def posix_path_def last_component_def
      strip_json_def cache_assign_def js_set_def stays_before_def array_index_def is_digit_def
      label_of_def)

text \<open>
  C9 at a concrete history. The configuration names \<^verbatim>\<open>assets/i18n/vi.json\<close> and
  \<^verbatim>\<open>assets/i18n/en.json\<close> and is then changed to name
  \<^verbatim>\<open>src/assets/i18n/vi.json\<close> and \<^verbatim>\<open>src/assets/i18n/en.json\<close>; the labels are
  unique in each configuration. The first loop loads the two new files under
  \<^verbatim>\<open>vi\<close> and \<^verbatim>\<open>en\<close>, and the second loop, which is to clean up the paths
  that are no longer configured, deletes by label the entries just loaded: the result of
  \<^verbatim>\<open>getAllCachedJson\<close> is empty while two paths are configured, and a later
  change of one file brings back that file's label alone. In
  \<^verbatim>\<open>src/src/extension.ts\<close>, which has no second loop, the label of a path that
  was removed from the configuration stays in the result.
\<close>

theorem handleJsonCacheAndWatcher_repointed_labels:
  "getAllCachedJson (run_store posix_path
      [(\<lambda>p. Inr (JObj [(''k'', JStr p)]),
          ConfigChanged [''assets/i18n/vi.json'', ''assets/i18n/en.json'']),
       (\<lambda>p. Inr (JObj [(''k'', JStr p)]),
          ConfigChanged [''src/assets/i18n/vi.json'', ''src/assets/i18n/en.json''])]
      initial_store) = []
   \<and> jsonPathLabels (run_store posix_path
      [(\<lambda>p. Inr (JObj [(''k'', JStr p)]),
          ConfigChanged [''assets/i18n/vi.json'', ''assets/i18n/en.json'']),
       (\<lambda>p. Inr (JObj [(''k'', JStr p)]),
          ConfigChanged [''src/assets/i18n/vi.json'', ''src/assets/i18n/en.json''])]
      initial_store)
     = [(''/w/src/assets/i18n/vi.json'', ''vi''), (''/w/src/assets/i18n/en.json'', ''en'')]
   \<and> getAllCachedJson (run_store posix_path
      [(\<lambda>p. Inr (JObj [(''k'', JStr p)]),
          ConfigChanged [''assets/i18n/vi.json'', ''assets/i18n/en.json'']),
       (\<lambda>p. Inr (JObj [(''k'', JStr p)]),
          ConfigChanged [''src/assets/i18n/vi.json'', ''src/assets/i18n/en.json'']),
       (\<lambda>p. Inr (JObj [(''k'', JStr p)]), FileChanged ''/w/src/assets/i18n/en.json'')]
      initial_store) = [(''en'', JObj [(''k'', JStr ''/w/src/assets/i18n/en.json'')])]
   \<and> map fst (getAllCachedJson
        (handleJsonCacheAndWatcher_extension_ts posix_path (\<lambda>p. Inr (JObj [(''k'', JStr p)]))
           [''assets/i18n/vi.json'']
           (handleJsonCacheAndWatcher_extension_ts posix_path (\<lambda>p. Inr (JObj [(''k'', JStr p)]))
              [''assets/i18n/vi.json'', ''assets/i18n/en.json''] initial_store)))
     = [''vi'', ''en'']"
  by (simp add: getAllCachedJson_def initial_store_def handleJsonCacheAndWatcher_def
      handleJsonCacheAndWatcher_extension_ts_def load_and_watch_def
      track_step_def untrack_step_def loadFile_def Let_def posix_path_def last_component_def
      strip_json_def cache_assign_def js_set_def stays_before_def array_index_def is_digit_def
      label_of_def)

end
